theory Spec2Isabelle
  imports Complex_Main
begin

section \<open>JavaScript values\<close>

text \<open>
  A JavaScript string is a sequence of UTF-16 code units; a code unit is modelled by its
  number. \<open>utf16\<close> turns an ASCII literal of the source into its code units.
\<close>

type_synonym jsstring = "nat list"

definition utf16 :: "string \<Rightarrow> jsstring" where
  "utf16 s = map of_char s"

text \<open>
  The values a decoded response body is made of, with \<open>undefined\<close> for what a property
  read can give. A number is kept by its value (the two zeros are one value here). An
  object is the list of its own properties; a property is looked up from the front.
\<close>

datatype jsnumber = NaN | PosInfinity | NegInfinity | Finite rat

datatype jsval =
    Undefined
  | Null
  | Bool bool
  | Num jsnumber
  | Str jsstring
  | Arr "jsval list"
  | Obj "(jsstring \<times> jsval) list"

text \<open>Truthiness (\<open>ToBoolean\<close>), as \<open>!play\<close>, \<open>||\<close> and \<open>if (...)\<close> use it.\<close>

fun truthy :: "jsval \<Rightarrow> bool" where
  "truthy Undefined = False"
| "truthy Null = False"
| "truthy (Bool b) = b"
| "truthy (Num NaN) = False"
| "truthy (Num (Finite r)) = (r \<noteq> 0)"
| "truthy (Num PosInfinity) = True"
| "truthy (Num NegInfinity) = True"
| "truthy (Str s) = (s \<noteq> [])"
| "truthy (Arr xs) = True"
| "truthy (Obj fields) = True"

text \<open>\<open>a || b\<close>: the left operand when it is truthy, the right operand otherwise.\<close>

definition js_or :: "jsval \<Rightarrow> jsval \<Rightarrow> jsval" where
  "js_or a b = (if truthy a then a else b)"

text \<open>
  The property names the extraction rules read. None of them is a property of a string,
  a number, a boolean or an array, nor of \<open>Object.prototype\<close>, so a read of one of them
  gives the object's own property of that name or \<open>undefined\<close>; and \<open>v?.p\<close> is
  \<open>undefined\<close> when \<open>v\<close> is \<open>null\<close> or \<open>undefined\<close>. A chain
  \<open>data?.data?.play\<close> is \<open>get (get data Data) Play\<close>.
\<close>

datatype property = Data | Play | Wmplay | Title | Author | Nickname

fun property_name :: "property \<Rightarrow> jsstring" where
  "property_name Data = utf16 ''data''"
| "property_name Play = utf16 ''play''"
| "property_name Wmplay = utf16 ''wmplay''"
| "property_name Title = utf16 ''title''"
| "property_name Author = utf16 ''author''"
| "property_name Nickname = utf16 ''nickname''"

fun get :: "jsval \<Rightarrow> property \<Rightarrow> jsval" where
  "get (Obj fields) p =
     (case map_of fields (property_name p) of Some v \<Rightarrow> v | None \<Rightarrow> Undefined)"
| "get v p = Undefined"

section \<open>Key rotator\<close>

text \<open>
  The module-level bindings the rotator works on: the credential pool
  \<open>RAPIDAPI_KEYS\<close> and the cursor \<open>keyIndex\<close> (\<open>let keyIndex = 0\<close>).
  The cursor is a JavaScript number, a double: it holds every integer up to \<open>2^53\<close>
  (9007199254740992) exactly. It starts at 0 and only \<open>keyIndex++\<close> writes it, so it is
  modelled by the natural number it holds.
\<close>

record globals =
  RAPIDAPI_KEYS :: "jsstring list"
  keyIndex :: nat

definition initial_globals :: "jsstring list \<Rightarrow> globals" where
  "initial_globals keys = \<lparr>RAPIDAPI_KEYS = keys, keyIndex = 0\<rparr>"

text \<open>
  \<open>keyIndex++\<close> on a double. Below \<open>2^53\<close> the sum with 1 is exact. At \<open>2^53\<close> the
  sum \<open>2^53 + 1\<close> is not a double and rounds, to the even neighbour, back to \<open>2^53\<close>:
  the cursor stays there. A cursor raised from 0 by this operation never holds a value
  above \<open>2^53\<close>.
\<close>

definition increment :: "nat \<Rightarrow> nat" where
  "increment n = (if n < 9007199254740992 then n + 1 else n)"

text \<open>
  \<open>getNextKey\<close>: read \<open>RAPIDAPI_KEYS[keyIndex % RAPIDAPI_KEYS.length]\<close>, then
  \<open>keyIndex++\<close>. On an empty pool the index is \<open>NaN\<close> and the read gives
  \<open>undefined\<close> (the module refuses to start with an empty pool).
\<close>

definition getNextKey :: "globals \<Rightarrow> jsval \<times> globals" where
  "getNextKey g =
     (let key = (if RAPIDAPI_KEYS g = [] then Undefined
                 else Str (RAPIDAPI_KEYS g ! (keyIndex g mod length (RAPIDAPI_KEYS g))))
      in (key, g\<lparr>keyIndex := increment (keyIndex g)\<rparr>))"

text \<open>\<open>n\<close> sequential calls of \<open>getNextKey\<close>, with the keys they return in call order.\<close>

fun getNextKey_calls :: "nat \<Rightarrow> globals \<Rightarrow> jsval list \<times> globals" where
  "getNextKey_calls 0 g = ([], g)"
| "getNextKey_calls (Suc n) g =
     (case getNextKey g of (k, g') \<Rightarrow>
        (case getNextKey_calls n g' of (ks, g'') \<Rightarrow> (k # ks, g'')))"

section \<open>Provider registry\<close>

text \<open>
  A provider descriptor. Its two functions are called in the module's scope, so in the
  model each takes the module's state and gives it back: \<open>buildHeaders\<close> draws a key,
  \<open>extract\<close> (here \<open>extractFn\<close>) maps the decoded response body to \<open>null\<close>
  (\<open>None\<close>) or to the object \<open>{videoUrl, title, author}\<close>.
\<close>

record headers =
  x_rapidapi_key :: jsval
  x_rapidapi_host :: jsstring

record normalized =
  videoUrl :: jsval
  title :: jsval
  author :: jsval

record provider =
  name :: jsstring
  url :: jsstring
  buildHeaders :: "globals \<Rightarrow> headers \<times> globals"
  extractFn :: "jsval \<Rightarrow> globals \<Rightarrow> normalized option \<times> globals"
  httpMethod :: jsstring
  paramKey :: jsstring
  timeout :: nat

definition buildHeaders_1 :: "globals \<Rightarrow> headers \<times> globals" where
  "buildHeaders_1 g =
     (case getNextKey g of (key, g') \<Rightarrow>
        (\<lparr>x_rapidapi_key = key,
          x_rapidapi_host = utf16 ''tiktok-video-no-watermark2.p.rapidapi.com''\<rparr>, g'))"

definition extract_1 :: "jsval \<Rightarrow> globals \<Rightarrow> normalized option \<times> globals" where
  "extract_1 d g =
     (let play = get (get d Data) Play in
      if \<not> truthy play then (None, g)
      else (Some \<lparr>videoUrl = play,
                  title = js_or (get (get d Data) Title) (Str (utf16 ''TikTok Video'')),
                  author = js_or (get (get (get d Data) Author) Nickname)
                             (Str (utf16 ''Unknown''))\<rparr>, g))"

definition buildHeaders_2 :: "globals \<Rightarrow> headers \<times> globals" where
  "buildHeaders_2 g =
     (case getNextKey g of (key, g') \<Rightarrow>
        (\<lparr>x_rapidapi_key = key,
          x_rapidapi_host = utf16 ''tiktok-video-no-watermark.p.rapidapi.com''\<rparr>, g'))"

definition extract_2 :: "jsval \<Rightarrow> globals \<Rightarrow> normalized option \<times> globals" where
  "extract_2 d g =
     (let play = js_or (js_or (get (get d Data) Play) (get (get d Data) Wmplay)) (get d Play) in
      if \<not> truthy play then (None, g)
      else (Some \<lparr>videoUrl = play,
                  title = js_or (js_or (get (get d Data) Title) (get d Title))
                            (Str (utf16 ''TikTok Video'')),
                  author = js_or (js_or (get (get (get d Data) Author) Nickname) (get d Author))
                             (Str (utf16 ''Unknown''))\<rparr>, g))"

definition RapidAPI_1 :: provider where
  "RapidAPI_1 =
     \<lparr>name = utf16 ''RapidAPI-1'',
      url = utf16 ''https://tiktok-video-no-watermark2.p.rapidapi.com/'',
      buildHeaders = buildHeaders_1,
      extractFn = extract_1,
      httpMethod = utf16 ''GET'',
      paramKey = utf16 ''url'',
      timeout = 15000\<rparr>"

definition RapidAPI_2 :: provider where
  "RapidAPI_2 =
     \<lparr>name = utf16 ''RapidAPI-2'',
      url = utf16 ''https://tiktok-video-no-watermark.p.rapidapi.com/'',
      buildHeaders = buildHeaders_2,
      extractFn = extract_2,
      httpMethod = utf16 ''GET'',
      paramKey = utf16 ''url'',
      timeout = 15000\<rparr>"

definition API_PROVIDERS :: "provider list" where
  "API_PROVIDERS = [RapidAPI_1, RapidAPI_2]"

section \<open>Fetch orchestrator\<close>

text \<open>
  The request object handed to \<open>axios.request\<close>, and what awaiting the call gives: the
  promise rejects (network error, timeout, a status outside 2xx), which \<open>await\<close> throws,
  or it resolves with a response whose \<open>data\<close> is the decoded body. The network is a
  parameter: its answer may depend on the request and on the requests sent before it.
\<close>

record request =
  req_method :: jsstring
  req_url :: jsstring
  req_params :: "(jsstring \<times> jsstring) list"
  req_headers :: headers
  req_timeout :: nat

datatype http_outcome = Rejected | Resolved jsval

type_synonym network = "request list \<Rightarrow> request \<Rightarrow> http_outcome"

text \<open>
  The result object: \<open>{ ok: false }\<close>, or \<open>{ ok: true, provider: provider.name,
  ...normalized }\<close>, the provider's name with the three properties of \<open>normalized\<close>.
\<close>

datatype fetch_result = NotOk | Ok jsstring normalized

text \<open>How the body of the \<open>try\<close> block ends for one provider.\<close>

datatype try_outcome = Thrown | Returned fetch_result | Completed

definition str_or :: "jsstring \<Rightarrow> jsstring \<Rightarrow> jsstring" where
  "str_or a b = (if a \<noteq> [] then a else b)"

definition try_provider ::
  "network \<Rightarrow> jsstring \<Rightarrow> provider \<Rightarrow> globals \<Rightarrow> request list
     \<Rightarrow> try_outcome \<times> globals \<times> request list" where
  "try_provider axios link p g sent =
     (case buildHeaders p g of (hs, g1) \<Rightarrow>
        (let req = \<lparr>req_method = str_or (httpMethod p) (utf16 ''GET''),
                    req_url = url p,
                    req_params = [(str_or (paramKey p) (utf16 ''url''), link)],
                    req_headers = hs,
                    req_timeout = (if timeout p \<noteq> 0 then timeout p else 15000)\<rparr>
         in case axios sent req of
              Rejected \<Rightarrow> (Thrown, g1, sent @ [req])
            | Resolved body \<Rightarrow>
                (case extractFn p body g1 of (result, g2) \<Rightarrow>
                   (case result of
                      None \<Rightarrow> (Completed, g2, sent @ [req])
                    | Some n \<Rightarrow>
                        if truthy (videoUrl n) then (Returned (Ok (name p) n), g2, sent @ [req])
                        else (Completed, g2, sent @ [req])))))"

text \<open>
  The loop \<open>for (const provider of registry)\<close>: a \<open>return\<close> in the \<open>try\<close> block ends
  the call, the empty \<open>catch\<close> block and a \<open>try\<close> block that completes both go on to
  the next provider, and after the last provider the call returns \<open>{ ok: false }\<close>.
  The requests sent are collected in order, next to the module's state. One call is
  modelled on its own: what other handlers do to the cursor while the call awaits a
  response is not part of it.
\<close>

fun fetch_loop ::
  "network \<Rightarrow> jsstring \<Rightarrow> provider list \<Rightarrow> globals \<Rightarrow> request list
     \<Rightarrow> fetch_result \<times> globals \<times> request list" where
  "fetch_loop axios link [] g sent = (NotOk, g, sent)"
| "fetch_loop axios link (p # ps) g sent =
     (case try_provider axios link p g sent of
        (Returned r, g', sent') \<Rightarrow> (r, g', sent')
      | (Thrown, g', sent') \<Rightarrow> fetch_loop axios link ps g' sent'
      | (Completed, g', sent') \<Rightarrow> fetch_loop axios link ps g' sent')"

definition fetchViaRegistry ::
  "provider list \<Rightarrow> network \<Rightarrow> jsstring \<Rightarrow> globals
     \<Rightarrow> fetch_result \<times> globals \<times> request list" where
  "fetchViaRegistry registry axios link g = fetch_loop axios link registry g []"

definition fetchViaProviders ::
  "network \<Rightarrow> jsstring \<Rightarrow> globals \<Rightarrow> fetch_result \<times> globals \<times> request list" where
  "fetchViaProviders axios link g = fetchViaRegistry API_PROVIDERS axios link g"

section \<open>URL validator\<close>

subsection \<open>The regular expression\<close>

text \<open>
  \<open>TIKTOK_REGEX\<close> is
  \<^verbatim>\<open>/https?:\/\/(www\.)?(m\.)?(vm\.)?tiktok\.com\/[^\s]+/i\<close>.
  Under the flag \<open>i\<close> two code units match when their canonical forms are equal. The
  canonical form of an ASCII letter is its upper case; no code unit outside ASCII has an
  ASCII canonical form, and every character of the pattern is ASCII, so code units
  outside ASCII are left as they are here.
\<close>

definition Canonicalize :: "nat \<Rightarrow> nat" where
  "Canonicalize c = (if 97 \<le> c \<and> c \<le> 122 then c - 32 else c)"

text \<open>
  The class \<open>\s\<close>: tab, line feed, vertical tab, form feed, carriage return, space,
  U+00A0, U+1680, U+2000 to U+200A, U+2028, U+2029, U+202F, U+205F, U+3000, U+FEFF.
\<close>

definition is_space :: "nat \<Rightarrow> bool" where
  "is_space c =
     (c \<in> {9, 10, 11, 12, 13, 32, 160, 5760, 8232, 8233, 8239, 8287, 12288, 65279}
      \<or> (8192 \<le> c \<and> c \<le> 8202))"

text \<open>
  A backtracking matcher takes the text at the current position and gives the texts that
  remain after each way of matching, in the order in which the engine tries them: an
  optional group is tried with the group first, \<open>[^\s]+\<close> takes the longest run first.
\<close>

type_synonym matcher = "jsstring \<Rightarrow> jsstring list"

definition re_lit :: "jsstring \<Rightarrow> matcher" where
  "re_lit p s =
     (if map Canonicalize (take (length p) s) = map Canonicalize p
      then [drop (length p) s] else [])"

definition re_opt :: "matcher \<Rightarrow> matcher" where
  "re_opt m s = m s @ [s]"

definition re_seq :: "matcher \<Rightarrow> matcher \<Rightarrow> matcher" where
  "re_seq m1 m2 s = concat (map m2 (m1 s))"

definition re_non_space_plus :: matcher where
  "re_non_space_plus s =
     map (\<lambda>k. drop k s) (rev [1..<Suc (length (takeWhile (\<lambda>c. \<not> is_space c) s))])"

definition TIKTOK_REGEX :: matcher where
  "TIKTOK_REGEX =
     re_seq (re_lit (utf16 ''http''))
    (re_seq (re_opt (re_lit (utf16 ''s'')))
    (re_seq (re_lit (utf16 ''://''))
    (re_seq (re_opt (re_lit (utf16 ''www.'')))
    (re_seq (re_opt (re_lit (utf16 ''m.'')))
    (re_seq (re_opt (re_lit (utf16 ''vm.'')))
    (re_seq (re_lit (utf16 ''tiktok.com/''))
            re_non_space_plus))))))"

text \<open>The match that starts at the front of \<open>s\<close>: the first way that succeeds.\<close>

definition match_here :: "jsstring \<Rightarrow> jsstring option" where
  "match_here s =
     (case TIKTOK_REGEX s of
        [] \<Rightarrow> None
      | r # rs \<Rightarrow> Some (take (length s - length r) s))"

text \<open>
  \<open>text.match(TIKTOK_REGEX)\<close> without the flag \<open>g\<close>: the start positions are tried
  from the left, the end of the text included, and \<open>match[0]\<close> is the match at the first
  position that has one. \<open>TIKTOK_REGEX.test(text)\<close> says whether there is one.
\<close>

fun regex_match :: "jsstring \<Rightarrow> jsstring option" where
  "regex_match [] = match_here []"
| "regex_match (c # cs) =
     (case match_here (c # cs) of
        Some m \<Rightarrow> Some m
      | None \<Rightarrow> regex_match cs)"

definition regex_test :: "jsstring \<Rightarrow> bool" where
  "regex_test s = (regex_match s \<noteq> None)"

subsection \<open>The platform's URL parser\<close>

text \<open>
  \<open>new URL(input).hostname\<close>, for the inputs the validator can pass: the scheme is
  \<open>http\<close> or \<open>https\<close> in any case, the slashes and backslashes after the colon are
  skipped, the host runs to the next \<open>/\<close>, \<open>\\<close>, \<open>?\<close> or \<open>#\<close> or to the end, and
  it is made of ASCII letters and dots. For these the parser gives the host in lower
  case. \<open>None\<close> is the thrown \<open>TypeError\<close> (a missing scheme, an empty host); it is also
  the answer for every input outside this fragment (other schemes, credentials, ports,
  digits, IPv6 literals, percent escapes, non-ASCII hosts, leading or embedded control
  characters), which the platform's parser may well accept:
  lemma \<open>URL_hostname_of_match\<close> shows that a match of \<open>TIKTOK_REGEX\<close> is never
  outside the fragment.
\<close>

definition toLowerCase :: "jsstring \<Rightarrow> jsstring" where
  "toLowerCase s = map (\<lambda>c. if 65 \<le> c \<and> c \<le> 90 then c + 32 else c) s"

definition is_ascii_alpha :: "nat \<Rightarrow> bool" where
  "is_ascii_alpha c = ((65 \<le> c \<and> c \<le> 90) \<or> (97 \<le> c \<and> c \<le> 122))"

definition is_scheme_char :: "nat \<Rightarrow> bool" where
  "is_scheme_char c =
     (is_ascii_alpha c \<or> (48 \<le> c \<and> c \<le> 57) \<or> c = 43 \<or> c = 45 \<or> c = 46)"

definition is_host_end :: "nat \<Rightarrow> bool" where
  "is_host_end c = (c = 47 \<or> c = 92 \<or> c = 63 \<or> c = 35)"

definition URL_scheme :: "jsstring \<Rightarrow> (jsstring \<times> jsstring) option" where
  "URL_scheme input =
     (let buffer = takeWhile is_scheme_char input;
          remaining = drop (length buffer) input
      in if buffer \<noteq> [] \<and> is_ascii_alpha (hd buffer) \<and> remaining \<noteq> [] \<and> hd remaining = 58
         then Some (toLowerCase buffer, tl remaining) else None)"

definition URL_hostname :: "jsstring \<Rightarrow> jsstring option" where
  "URL_hostname input =
     (case URL_scheme input of
        None \<Rightarrow> None
      | Some (scheme, remaining) \<Rightarrow>
          if scheme = utf16 ''http'' \<or> scheme = utf16 ''https'' then
            (let after_slashes = dropWhile (\<lambda>c. c = 47 \<or> c = 92) remaining;
                 host = takeWhile (\<lambda>c. \<not> is_host_end c) after_slashes
             in if host \<noteq> [] \<and> list_all (\<lambda>c. is_ascii_alpha c \<or> c = 46) host
                then Some (toLowerCase host) else None)
          else None)"

subsection \<open>The validator\<close>

definition ALLOWED_DOMAINS :: "jsstring list" where
  "ALLOWED_DOMAINS =
     [utf16 ''tiktok.com'', utf16 ''www.tiktok.com'', utf16 ''m.tiktok.com'',
      utf16 ''vm.tiktok.com'']"

text \<open>
  \<open>isTikTokUrl\<close>. The hostname is ASCII, so \<open>toLowerCase\<close> on the ASCII range is
  what \<open>url.hostname.toLowerCase()\<close> does to it.
\<close>

definition isTikTokUrl :: "jsstring \<Rightarrow> bool" where
  "isTikTokUrl s =
     (if \<not> regex_test s then False
      else (case regex_match s of
              None \<Rightarrow> False
            | Some m \<Rightarrow>
                (case URL_hostname m of
                   None \<Rightarrow> False
                 | Some hostname \<Rightarrow> toLowerCase hostname \<in> set ALLOWED_DOMAINS)))"

text \<open>
  A text matches the pattern as a whole when one way of matching uses it up. A match of
  the pattern in \<open>s\<close> is a part of \<open>s\<close> that matches as a whole; it is a leftmost match
  when no match of the pattern in \<open>s\<close> starts before it.
\<close>

definition matches_pattern :: "jsstring \<Rightarrow> bool" where
  "matches_pattern w = ([] \<in> set (TIKTOK_REGEX w))"

definition match_in :: "jsstring \<Rightarrow> jsstring \<Rightarrow> jsstring \<Rightarrow> bool" where
  "match_in s pre m = (matches_pattern m \<and> (\<exists>post. s = pre @ m @ post))"

definition leftmost_match_in :: "jsstring \<Rightarrow> jsstring \<Rightarrow> jsstring \<Rightarrow> bool" where
  "leftmost_match_in s pre m =
     (match_in s pre m \<and> (\<forall>pre' m'. match_in s pre' m' \<longrightarrow> length pre \<le> length pre'))"

text \<open>
  The parsed hostname of \<open>m\<close> is one of the allowed hostnames, compared without regard to
  case.
\<close>

definition allowed_host :: "jsstring \<Rightarrow> bool" where
  "allowed_host m =
     (\<exists>hostname. URL_hostname m = Some hostname
        \<and> toLowerCase hostname \<in> set ALLOWED_DOMAINS)"

section \<open>Properties of the key rotator\<close>

lemma getNextKey_fst:
  "fst (getNextKey g) =
     (if RAPIDAPI_KEYS g = [] then Undefined
      else Str (RAPIDAPI_KEYS g ! (keyIndex g mod length (RAPIDAPI_KEYS g))))"
  by (simp add: getNextKey_def)

lemma getNextKey_snd:
  "keyIndex g < 9007199254740992 \<Longrightarrow> snd (getNextKey g) = g\<lparr>keyIndex := keyIndex g + 1\<rparr>"
  by (simp add: getNextKey_def increment_def)

lemma getNextKey_saturated:
  "keyIndex g = 9007199254740992 \<Longrightarrow> snd (getNextKey g) = g"
  by (simp add: getNextKey_def increment_def)

lemma getNextKey_keyIndex_mono: "keyIndex g \<le> keyIndex (snd (getNextKey g))"
  by (simp add: getNextKey_def increment_def)

lemma getNextKey_pool: "RAPIDAPI_KEYS (snd (getNextKey g)) = RAPIDAPI_KEYS g"
  by (simp add: getNextKey_def)

lemma getNextKey_calls_length:
  "length (fst (getNextKey_calls n g)) = n"
  by (induction n arbitrary: g) (simp_all add: case_prod_beta)

lemma getNextKey_calls_globals:
  "keyIndex g + n \<le> 9007199254740992 \<Longrightarrow>
   snd (getNextKey_calls n g) = g\<lparr>keyIndex := keyIndex g + n\<rparr>"
proof (induction n arbitrary: g)
  case 0
  then show ?case by simp
next
  case (Suc n)
  from Suc.prems have "keyIndex g < 9007199254740992" by simp
  then have step: "snd (getNextKey g) = g\<lparr>keyIndex := keyIndex g + 1\<rparr>"
    by (rule getNextKey_snd)
  have "keyIndex (g\<lparr>keyIndex := keyIndex g + 1\<rparr>) + n \<le> 9007199254740992"
    using Suc.prems by simp
  from Suc.IH [OF this] step show ?case by (simp add: case_prod_beta)
qed

lemma getNextKey_calls_nth:
  "RAPIDAPI_KEYS g \<noteq> [] \<Longrightarrow> i < n \<Longrightarrow> keyIndex g + i \<le> 9007199254740992 \<Longrightarrow>
   fst (getNextKey_calls n g) ! i =
     Str (RAPIDAPI_KEYS g ! ((keyIndex g + i) mod length (RAPIDAPI_KEYS g)))"
proof (induction n arbitrary: g i)
  case 0
  then show ?case by simp
next
  case (Suc n)
  let ?g' = "g\<lparr>keyIndex := keyIndex g + 1\<rparr>"
  show ?case
  proof (cases i)
    case 0
    with Suc.prems show ?thesis
      by (simp add: getNextKey_fst case_prod_beta)
  next
    case (Suc j)
    with Suc.prems have "keyIndex g < 9007199254740992" by simp
    then have step: "snd (getNextKey g) = ?g'" by (rule getNextKey_snd)
    from Suc Suc.prems have "j < n" by simp
    moreover have "RAPIDAPI_KEYS ?g' \<noteq> []" using Suc.prems by simp
    moreover have "keyIndex ?g' + j \<le> 9007199254740992" using Suc Suc.prems by simp
    ultimately have "fst (getNextKey_calls n ?g') ! j =
        Str (RAPIDAPI_KEYS ?g' ! ((keyIndex ?g' + j) mod length (RAPIDAPI_KEYS ?g')))"
      using Suc.IH [of ?g' j] by blast
    with Suc step show ?thesis
      by (simp add: case_prod_beta)
  qed
qed

text \<open>
  C4. For a credential pool of size \<open>N \<ge> 1\<close> and the initial cursor, \<open>N\<close>
  sequential calls of \<open>getNextKey\<close> return the \<open>N\<close> credentials, each pool position once
  and in pool order; the call after them returns the first credential again; and the
  sequence of returned keys is periodic with period \<open>N\<close>: call number \<open>i + N\<close> returns
  what call number \<open>i\<close> returned. This is for the calls on which the cursor is exact:
  a pool of at most \<open>2^53\<close> credentials (an array has fewer than \<open>2^32\<close> elements) and
  call numbers up to \<open>2^53\<close>, counted from 0.
\<close>

theorem getNextKey_round_robin:
  assumes "keys \<noteq> []" and "length keys \<le> 9007199254740992"
  shows "fst (getNextKey_calls (length keys) (initial_globals keys)) = map Str keys
       \<and> fst (getNextKey_calls (Suc (length keys)) (initial_globals keys))
           = map Str keys @ [Str (hd keys)]
       \<and> (\<forall>i n. i + length keys < n \<and> i + length keys \<le> 9007199254740992 \<longrightarrow>
             fst (getNextKey_calls n (initial_globals keys)) ! (i + length keys)
               = fst (getNextKey_calls n (initial_globals keys)) ! i)"
proof -
  let ?g = "initial_globals keys"
  have pool: "RAPIDAPI_KEYS ?g \<noteq> []" "RAPIDAPI_KEYS ?g = keys" "keyIndex ?g = 0"
    using assms by (simp_all add: initial_globals_def)
  have len: "length (fst (getNextKey_calls m ?g)) = m" for m
    by (rule getNextKey_calls_length)
  have nth: "fst (getNextKey_calls m ?g) ! j = Str (keys ! (j mod length keys))"
    if "j < m" "j \<le> 9007199254740992" for j m
  proof -
    from that(2) have "keyIndex ?g + j \<le> 9007199254740992" by (simp only: pool add_0)
    from getNextKey_calls_nth [OF pool(1) that(1) this] show ?thesis
      by (simp only: pool add_0)
  qed
  have one: "fst (getNextKey_calls (length keys) ?g) = map Str keys"
  proof (rule nth_equalityI)
    show "length (fst (getNextKey_calls (length keys) ?g)) = length (map Str keys)"
      by (simp only: len length_map)
  next
    fix j
    assume "j < length (fst (getNextKey_calls (length keys) ?g))"
    then have j: "j < length keys" by (simp only: len)
    with assms(2) have "j \<le> 9007199254740992" by simp
    from nth [OF j this] j show "fst (getNextKey_calls (length keys) ?g) ! j = map Str keys ! j"
      by simp
  qed
  have two: "fst (getNextKey_calls (Suc (length keys)) ?g) = map Str keys @ [Str (hd keys)]"
  proof (rule nth_equalityI)
    show "length (fst (getNextKey_calls (Suc (length keys)) ?g))
            = length (map Str keys @ [Str (hd keys)])"
      by (simp only: len) simp
  next
    fix j
    assume "j < length (fst (getNextKey_calls (Suc (length keys)) ?g))"
    then have j: "j < Suc (length keys)" by (simp only: len)
    with assms(2) have b: "j \<le> 9007199254740992" by simp
    note nj = nth [OF j b]
    show "fst (getNextKey_calls (Suc (length keys)) ?g) ! j
            = (map Str keys @ [Str (hd keys)]) ! j"
    proof (cases "j < length keys")
      case True
      with nj show ?thesis by (simp add: nth_append)
    next
      case False
      with j have eq: "j = length keys" by simp
      with nj assms(1) show ?thesis by (simp add: nth_append hd_conv_nth)
    qed
  qed
  have three: "fst (getNextKey_calls n ?g) ! (i + length keys) = fst (getNextKey_calls n ?g) ! i"
    if "i + length keys < n" "i + length keys \<le> 9007199254740992" for i n
  proof -
    from that have "i < n" "i \<le> 9007199254740992" by simp_all
    from nth [OF this] nth [OF that] show ?thesis by simp
  qed
  from one two three show ?thesis by blast
qed

theorem getNextKey_round_robin_witness:
  "fst (getNextKey_calls 3 (initial_globals [utf16 ''k1'', utf16 ''k2'', utf16 ''k3'']))
     = [Str (utf16 ''k1''), Str (utf16 ''k2''), Str (utf16 ''k3'')]
   \<and> fst (getNextKey_calls 4 (initial_globals [utf16 ''k1'', utf16 ''k2'', utf16 ''k3'']))
     = [Str (utf16 ''k1''), Str (utf16 ''k2''), Str (utf16 ''k3''), Str (utf16 ''k1'')]
   \<and> fst (getNextKey_calls 7 (initial_globals [utf16 ''k1'', utf16 ''k2'', utf16 ''k3''])) ! 5
     = fst (getNextKey_calls 7 (initial_globals [utf16 ''k1'', utf16 ''k2'', utf16 ''k3''])) ! 2"
proof -
  have ne: "[utf16 ''k1'', utf16 ''k2'', utf16 ''k3''] \<noteq> []" by simp
  have sz: "length [utf16 ''k1'', utf16 ''k2'', utf16 ''k3''] \<le> 9007199254740992" by simp
  have n3: "length [utf16 ''k1'', utf16 ''k2'', utf16 ''k3''] = 3" by simp
  have n4: "Suc 3 = 4" by simp
  note rr = getNextKey_round_robin [OF ne sz, unfolded n3 n4]
  have "(2::nat) + 3 < 7 \<and> (2::nat) + 3 \<le> 9007199254740992" by simp
  with rr have "fst (getNextKey_calls 7 (initial_globals [utf16 ''k1'', utf16 ''k2'', utf16 ''k3''])) ! (2 + 3)
     = fst (getNextKey_calls 7 (initial_globals [utf16 ''k1'', utf16 ''k2'', utf16 ''k3''])) ! 2"
    by blast
  with rr show ?thesis by (simp del: getNextKey_calls.simps)
qed

section \<open>Properties of the provider registry and the orchestrator\<close>

lemmas provider_defs = API_PROVIDERS_def RapidAPI_1_def RapidAPI_2_def buildHeaders_1_def
  buildHeaders_2_def extract_1_def extract_2_def

lemma try_provider_rejected:
  assumes "\<And>req. req_url req = url p \<Longrightarrow> axios sent req = Rejected"
  shows "\<exists>req. req_url req = url p \<and>
           try_provider axios link p g sent = (Thrown, snd (buildHeaders p g), sent @ [req])"
  using assms by (simp add: try_provider_def case_prod_beta Let_def)

lemma fetch_loop_all_rejected:
  assumes "\<And>sent req. req_url req \<in> url ` set ps \<Longrightarrow> axios sent req = Rejected"
  shows "fst (fetch_loop axios link ps g sent) = NotOk
       \<and> map req_url (snd (snd (fetch_loop axios link ps g sent))) = map req_url sent @ map url ps"
  using assms
proof (induction ps arbitrary: g sent)
  case Nil
  then show ?case by simp
next
  case (Cons p ps)
  have "\<And>req. req_url req = url p \<Longrightarrow> axios sent req = Rejected"
    using Cons.prems by simp
  from try_provider_rejected [of p axios sent link g, OF this]
  obtain req where req: "req_url req = url p"
    "try_provider axios link p g sent = (Thrown, snd (buildHeaders p g), sent @ [req])"
    by blast
  have "\<And>sent req. req_url req \<in> url ` set ps \<Longrightarrow> axios sent req = Rejected"
    using Cons.prems by simp
  then have "fst (fetch_loop axios link ps (snd (buildHeaders p g)) (sent @ [req])) = NotOk
       \<and> map req_url (snd (snd (fetch_loop axios link ps (snd (buildHeaders p g)) (sent @ [req]))))
           = map req_url (sent @ [req]) @ map url ps"
    by (rule Cons.IH)
  with req show ?case by simp
qed

text \<open>
  C3. For every registry and every network on which each request addressed to a provider
  of the registry is rejected, the call returns \<open>{ ok: false }\<close>: each rejection is
  caught in the loop, which goes on to the next provider, and the result is produced
  after one request has been sent to every provider, in registry order. The call has no
  other way to end: the model's result is a value for every input.
\<close>

theorem fetch_all_providers_throw:
  assumes "\<forall>sent req. req_url req \<in> url ` set registry \<longrightarrow> axios sent req = Rejected"
  shows "fst (fetchViaRegistry registry axios link g) = NotOk
       \<and> map req_url (snd (snd (fetchViaRegistry registry axios link g))) = map url registry"
  using fetch_loop_all_rejected [of registry axios link g "[]"] assms
  by (simp add: fetchViaRegistry_def)


lemma try_provider_url:
  "\<exists>req. req_url req = url p \<and> snd (snd (try_provider axios link p g sent)) = sent @ [req]"
  by (simp add: try_provider_def case_prod_beta Let_def split: http_outcome.split option.split)

lemma try_provider_no_result:
  assumes "\<And>body g'. fst (extractFn p body g') = None"
  shows "fst (try_provider axios link p g sent) \<noteq> Returned r"
  using assms [of _ "snd (buildHeaders p g)"]
  by (simp add: try_provider_def case_prod_beta Let_def split: http_outcome.split option.split)

lemma try_provider_success:
  assumes "\<And>req. axios sent req = Resolved body"
      and "fst (extractFn p body (snd (buildHeaders p g))) = Some t"
      and "truthy (videoUrl t)"
  shows "fst (try_provider axios link p g sent) = Returned (Ok (name p) t)"
  using assms
  by (simp add: try_provider_def case_prod_beta Let_def)

text \<open>
  C2. For every registry that starts with two providers where the first one's
  \<open>extract\<close> always returns \<open>null\<close> and the second HTTP call resolves with a body on
  which the second one's \<open>extract\<close> returns a tuple with a truthy \<open>videoUrl\<close>, the call
  returns the \<open>ok: true\<close> result made of the second provider's name and that tuple. The
  requests sent are one to the first provider and then one to the second, and no provider
  after them is queried.
\<close>

theorem first_success_wins:
  assumes "\<forall>body g'. fst (extractFn p1 body g') = None"
      and "\<forall>sent req. length sent = 1 \<longrightarrow> axios sent req = Resolved body2"
      and "\<forall>g'. fst (extractFn p2 body2 g') = Some t"
      and "truthy (videoUrl t)"
  shows "fst (fetchViaRegistry (p1 # p2 # others) axios link g) = Ok (name p2) t
       \<and> map req_url (snd (snd (fetchViaRegistry (p1 # p2 # others) axios link g)))
           = [url p1, url p2]"
proof -
  obtain o1 g1 sent1 where t1: "try_provider axios link p1 g [] = (o1, g1, sent1)"
    by (metis prod_cases3)
  from try_provider_url [of p1 axios link g "[]"] t1
  obtain req1 where req1: "req_url req1 = url p1" "sent1 = [req1]" by auto
  have o1: "o1 = Thrown \<or> o1 = Completed"
    using try_provider_no_result [of p1 axios link g "[]"] assms(1) t1
    by (cases o1) auto
  obtain o2 g2 sent2 where t2: "try_provider axios link p2 g1 sent1 = (o2, g2, sent2)"
    by (metis prod_cases3)
  from try_provider_url [of p2 axios link g1 sent1] t2 req1
  obtain req2 where req2: "req_url req2 = url p2" "sent2 = [req1, req2]" by auto
  have "fst (try_provider axios link p2 g1 sent1) = Returned (Ok (name p2) t)"
    using assms(2-4) req1 by (intro try_provider_success) auto
  with t2 have o2: "o2 = Returned (Ok (name p2) t)" by simp
  have t2': "try_provider axios link p2 g1 [req1] = (Returned (Ok (name p2) t), g2, [req1, req2])"
    using t2 by (simp add: o2 req1 req2)
  from o1 show ?thesis
    by (auto simp: fetchViaRegistry_def t1 t2' req1 req2)
qed


theorem fetch_all_providers_throw_witness:
  "fst (fetchViaRegistry API_PROVIDERS (\<lambda>sent req. Rejected)
          (utf16 ''https://vm.tiktok.com/ZMabc123/'') (initial_globals [utf16 ''k1''])) = NotOk
   \<and> map req_url (snd (snd (fetchViaRegistry API_PROVIDERS (\<lambda>sent req. Rejected)
          (utf16 ''https://vm.tiktok.com/ZMabc123/'') (initial_globals [utf16 ''k1'']))))
       = map url API_PROVIDERS"
  using fetch_all_providers_throw [of API_PROVIDERS "\<lambda>sent req. Rejected"
      "utf16 ''https://vm.tiktok.com/ZMabc123/''" "initial_globals [utf16 ''k1'']"]
  by simp

theorem first_success_wins_witness:
  "fst (fetchViaRegistry
          [RapidAPI_1\<lparr>extractFn := \<lambda>body g. (None, g)\<rparr>, RapidAPI_2]
          (\<lambda>sent req. Resolved (Obj [(utf16 ''play'', Str (utf16 ''u''))]))
          (utf16 ''https://vm.tiktok.com/ZMabc123/'') (initial_globals [utf16 ''k1'']))
     = Ok (utf16 ''RapidAPI-2'')
          \<lparr>videoUrl = Str (utf16 ''u''), title = Str (utf16 ''TikTok Video''),
           author = Str (utf16 ''Unknown'')\<rparr>
   \<and> map req_url (snd (snd (fetchViaRegistry
          [RapidAPI_1\<lparr>extractFn := \<lambda>body g. (None, g)\<rparr>, RapidAPI_2]
          (\<lambda>sent req. Resolved (Obj [(utf16 ''play'', Str (utf16 ''u''))]))
          (utf16 ''https://vm.tiktok.com/ZMabc123/'') (initial_globals [utf16 ''k1'']))))
     = [utf16 ''https://tiktok-video-no-watermark2.p.rapidapi.com/'',
        utf16 ''https://tiktok-video-no-watermark.p.rapidapi.com/'']"
proof -
  have e2: "\<forall>g'. fst (extractFn RapidAPI_2 (Obj [(utf16 ''play'', Str (utf16 ''u''))]) g')
      = Some \<lparr>videoUrl = Str (utf16 ''u''), title = Str (utf16 ''TikTok Video''),
           author = Str (utf16 ''Unknown'')\<rparr>"
    by (simp add: provider_defs js_or_def utf16_def)
  have tr: "truthy (videoUrl \<lparr>videoUrl = Str (utf16 ''u''), title = Str (utf16 ''TikTok Video''),
           author = Str (utf16 ''Unknown'')\<rparr>)"
    by (simp add: utf16_def)
  have e1: "\<forall>body g'. fst (extractFn (RapidAPI_1\<lparr>extractFn := \<lambda>body g. (None, g)\<rparr>) body g') = None"
    by simp
  have ax: "\<forall>sent req. length sent = 1 \<longrightarrow>
      (\<lambda>sent req. Resolved (Obj [(utf16 ''play'', Str (utf16 ''u''))])) sent (req::request)
        = Resolved (Obj [(utf16 ''play'', Str (utf16 ''u''))])"
    by simp
  from first_success_wins [OF e1 ax e2 tr, of "[]"
      "utf16 ''https://vm.tiktok.com/ZMabc123/''" "initial_globals [utf16 ''k1'']"]
  show ?thesis by (simp add: RapidAPI_1_def RapidAPI_2_def)
qed

text \<open>
  C5. For the link \<open>https://vm.tiktok.com/ZMabc123/\<close>, when the first HTTP call
  resolves with the body \<open>{data: {play: "http://x/video.mp4", title: "T", author:
  {nickname: "A"}}}\<close>, the call returns exactly \<open>{ok: true, provider: "RapidAPI-1",
  videoUrl: "http://x/video.mp4", title: "T", author: "A"}\<close>, whatever the module's state.
\<close>

theorem end_to_end:
  assumes "\<forall>req. axios [] req = Resolved (Obj [(utf16 ''data'', Obj
     [(utf16 ''play'', Str (utf16 ''http://x/video.mp4'')),
      (utf16 ''title'', Str (utf16 ''T'')),
      (utf16 ''author'', Obj [(utf16 ''nickname'', Str (utf16 ''A''))])])])"
  shows "fst (fetchViaProviders axios (utf16 ''https://vm.tiktok.com/ZMabc123/'') g)
     = Ok (utf16 ''RapidAPI-1'')
          \<lparr>videoUrl = Str (utf16 ''http://x/video.mp4''), title = Str (utf16 ''T''),
           author = Str (utf16 ''A'')\<rparr>"
  using assms
  by (simp add: fetchViaProviders_def fetchViaRegistry_def try_provider_def provider_defs
      getNextKey_def js_or_def utf16_def Let_def)

theorem end_to_end_witness:
  "fst (fetchViaProviders
      (\<lambda>sent req. Resolved (Obj [(utf16 ''data'', Obj
         [(utf16 ''play'', Str (utf16 ''http://x/video.mp4'')),
          (utf16 ''title'', Str (utf16 ''T'')),
          (utf16 ''author'', Obj [(utf16 ''nickname'', Str (utf16 ''A''))])])]))
      (utf16 ''https://vm.tiktok.com/ZMabc123/'') (initial_globals [utf16 ''k1'', utf16 ''k2'']))
     = Ok (utf16 ''RapidAPI-1'')
          \<lparr>videoUrl = Str (utf16 ''http://x/video.mp4''), title = Str (utf16 ''T''),
           author = Str (utf16 ''A'')\<rparr>"
  using end_to_end [of "\<lambda>sent req. Resolved (Obj [(utf16 ''data'', Obj
         [(utf16 ''play'', Str (utf16 ''http://x/video.mp4'')),
          (utf16 ''title'', Str (utf16 ''T'')),
          (utf16 ''author'', Obj [(utf16 ''nickname'', Str (utf16 ''A''))])])])"
      "initial_globals [utf16 ''k1'', utf16 ''k2'']"]
  by simp


text \<open>
  C6 as stated fails for \<open>RapidAPI-2\<close>: on the body \<open>{data: {play: "u"}, author:
  "bob"}\<close> no author nickname is present, under \<open>data.author\<close> or under \<open>author\<close>, and
  the tuple's author is \<open>"bob"\<close>, not \<open>"Unknown"\<close>.
\<close>

theorem extract_author_counterexample:
  "fst (extractFn RapidAPI_2
          (Obj [(utf16 ''data'', Obj [(utf16 ''play'', Str (utf16 ''u''))]),
                (utf16 ''author'', Str (utf16 ''bob''))])
          (initial_globals [utf16 ''k1'']))
     = Some \<lparr>videoUrl = Str (utf16 ''u''), title = Str (utf16 ''TikTok Video''),
             author = Str (utf16 ''bob'')\<rparr>
   \<and> get (get (get (Obj [(utf16 ''data'', Obj [(utf16 ''play'', Str (utf16 ''u''))]),
                (utf16 ''author'', Str (utf16 ''bob''))]) Data) Author) Nickname = Undefined
   \<and> get (get (Obj [(utf16 ''data'', Obj [(utf16 ''play'', Str (utf16 ''u''))]),
                (utf16 ''author'', Str (utf16 ''bob''))]) Author) Nickname = Undefined
   \<and> Str (utf16 ''bob'') \<noteq> Str (utf16 ''Unknown'')"
  by (simp add: provider_defs js_or_def utf16_def)

text \<open>
  C6, amended. \<open>extract\<close> returns \<open>null\<close> exactly when none of the provider's video
  fields is truthy (\<open>data.play\<close> for \<open>RapidAPI-1\<close>; \<open>data.play\<close>, \<open>data.wmplay\<close> and
  the top-level \<open>play\<close> for \<open>RapidAPI-2\<close>). When it returns a tuple, the title is
  \<open>data.title\<close> when that is truthy, for \<open>RapidAPI-2\<close> otherwise the top-level
  \<open>title\<close> when that is truthy, and \<open>"TikTok Video"\<close> otherwise; the author is
  \<open>data.author.nickname\<close> when that is truthy, for \<open>RapidAPI-2\<close> otherwise the
  top-level \<open>author\<close> value when that is truthy, and \<open>"Unknown"\<close> otherwise.
\<close>

theorem extract_title_author:
  "(fst (extractFn RapidAPI_1 body g) = None \<longleftrightarrow> \<not> truthy (get (get body Data) Play))
   \<and> (\<forall>n. fst (extractFn RapidAPI_1 body g) = Some n \<longrightarrow>
         title n = (if truthy (get (get body Data) Title) then get (get body Data) Title
                    else Str (utf16 ''TikTok Video''))
       \<and> author n = (if truthy (get (get (get body Data) Author) Nickname)
                     then get (get (get body Data) Author) Nickname
                     else Str (utf16 ''Unknown'')))
   \<and> (fst (extractFn RapidAPI_2 body g) = None \<longleftrightarrow>
         \<not> truthy (get (get body Data) Play) \<and> \<not> truthy (get (get body Data) Wmplay)
         \<and> \<not> truthy (get body Play))
   \<and> (\<forall>n. fst (extractFn RapidAPI_2 body g) = Some n \<longrightarrow>
         title n = (if truthy (get (get body Data) Title) then get (get body Data) Title
                    else if truthy (get body Title) then get body Title
                    else Str (utf16 ''TikTok Video''))
       \<and> author n = (if truthy (get (get (get body Data) Author) Nickname)
                     then get (get (get body Data) Author) Nickname
                     else if truthy (get body Author) then get body Author
                     else Str (utf16 ''Unknown'')))"
  by (auto simp: RapidAPI_1_def RapidAPI_2_def extract_1_def extract_2_def js_or_def Let_def)

text \<open>
  C8. For both providers of the registry, \<open>extract\<close> leaves the module's state as it
  is, a second call on the same body gives the same output as the first, and the output
  does not depend on the state the call is made in.
\<close>

theorem extract_pure:
  assumes "p \<in> set API_PROVIDERS"
  shows "snd (extractFn p body g) = g
       \<and> fst (extractFn p body (snd (extractFn p body g))) = fst (extractFn p body g)
       \<and> fst (extractFn p body g') = fst (extractFn p body g)"
  using assms by (auto simp: provider_defs Let_def)

lemma extract_1_Some:
  "fst (extract_1 body g) = Some n \<Longrightarrow>
     videoUrl n = get (get body Data) Play \<and> truthy (videoUrl n)"
  by (auto simp: extract_1_def Let_def split: if_splits)

lemma extract_2_Some:
  "fst (extract_2 body g) = Some n \<Longrightarrow>
     videoUrl n = js_or (js_or (get (get body Data) Play) (get (get body Data) Wmplay))
                    (get body Play) \<and> truthy (videoUrl n)"
  by (auto simp: extract_2_def Let_def split: if_splits)

lemma registry_extract_truthy:
  "p \<in> set API_PROVIDERS \<Longrightarrow> fst (extractFn p body g) = Some n \<Longrightarrow> truthy (videoUrl n)"
  by (auto simp: API_PROVIDERS_def RapidAPI_1_def RapidAPI_2_def
      dest: extract_1_Some extract_2_Some)

lemma try_provider_resolved:
  assumes "\<forall>req. axios sent req = Resolved body"
  shows "fst (try_provider axios link p g sent) =
           (case fst (extractFn p body (snd (buildHeaders p g))) of
              None \<Rightarrow> Completed
            | Some n \<Rightarrow> if truthy (videoUrl n) then Returned (Ok (name p) n) else Completed)"
  using assms by (simp add: try_provider_def case_prod_beta Let_def split: option.split)

text \<open>
  C10. For both providers of the registry, a tuple returned by \<open>extract\<close> has as its
  \<open>videoUrl\<close> the play value that the \<open>null\<close> check tested, and that value is truthy.
  So when the HTTP call resolves, the orchestrator's guard \<open>normalized?.videoUrl\<close>
  lets the \<open>try\<close> block complete without a result exactly when \<open>extract\<close> returned
  \<open>null\<close>, and every tuple that \<open>extract\<close> returns is returned by the call.
\<close>

theorem extract_videoUrl_truthy:
  "(\<forall>n. fst (extractFn RapidAPI_1 body g) = Some n \<longrightarrow>
        videoUrl n = get (get body Data) Play \<and> truthy (videoUrl n))
   \<and> (\<forall>n. fst (extractFn RapidAPI_2 body g) = Some n \<longrightarrow>
        videoUrl n = js_or (js_or (get (get body Data) Play) (get (get body Data) Wmplay))
                       (get body Play)
        \<and> truthy (videoUrl n))
   \<and> (\<forall>p \<in> set API_PROVIDERS. (\<forall>req. axios sent req = Resolved body) \<longrightarrow>
        (fst (try_provider axios link p g sent) = Completed
           \<longleftrightarrow> fst (extractFn p body (snd (buildHeaders p g))) = None)
        \<and> (\<forall>n. fst (extractFn p body (snd (buildHeaders p g))) = Some n \<longrightarrow>
              fst (try_provider axios link p g sent) = Returned (Ok (name p) n)))"
proof (intro conjI allI impI ballI)
  fix n assume "fst (extractFn RapidAPI_1 body g) = Some n"
  then have "fst (extract_1 body g) = Some n" by (simp add: RapidAPI_1_def)
  then show "videoUrl n = get (get body Data) Play" "truthy (videoUrl n)"
    using extract_1_Some by blast+
next
  fix n assume "fst (extractFn RapidAPI_2 body g) = Some n"
  then have "fst (extract_2 body g) = Some n" by (simp add: RapidAPI_2_def)
  then show "videoUrl n = js_or (js_or (get (get body Data) Play) (get (get body Data) Wmplay))
                       (get body Play)" "truthy (videoUrl n)"
    using extract_2_Some by blast+
next
  fix p assume p: "p \<in> set API_PROVIDERS" and ax: "\<forall>req. axios sent req = Resolved body"
  show "fst (try_provider axios link p g sent) = Completed
           \<longleftrightarrow> fst (extractFn p body (snd (buildHeaders p g))) = None"
    using registry_extract_truthy [OF p] try_provider_resolved [of axios sent body link p g] ax
    by (auto split: option.splits)
next
  fix p n assume p: "p \<in> set API_PROVIDERS" and ax: "\<forall>req. axios sent req = Resolved body"
    and n: "fst (extractFn p body (snd (buildHeaders p g))) = Some n"
  show "fst (try_provider axios link p g sent) = Returned (Ok (name p) n)"
    using registry_extract_truthy [OF p n] try_provider_resolved [of axios sent body link p g] ax n
    by simp
qed

lemma registry_buildHeaders:
  assumes "p \<in> set API_PROVIDERS"
  shows "snd (buildHeaders p g) = snd (getNextKey g)
       \<and> x_rapidapi_key (fst (buildHeaders p g)) = fst (getNextKey g)"
  using assms by (auto simp: provider_defs case_prod_beta)

lemma registry_extract_state:
  assumes "p \<in> set API_PROVIDERS"
  shows "snd (extractFn p body g) = g"
  using assms by (auto simp: provider_defs Let_def)

lemma try_provider_frame:
  assumes "p \<in> set API_PROVIDERS"
  shows "\<exists>req. snd (try_provider axios link p g sent) = (snd (getNextKey g), sent @ [req])
           \<and> x_rapidapi_key (req_headers req) = fst (getNextKey g)"
proof -
  obtain hs g1 where b: "buildHeaders p g = (hs, g1)" by (cases "buildHeaders p g") auto
  with registry_buildHeaders [OF assms, of g]
  have g1: "g1 = snd (getNextKey g)" and hs: "x_rapidapi_key hs = fst (getNextKey g)"
    by simp_all
  have ex: "snd (extractFn p body g1) = g1" for body
    by (rule registry_extract_state [OF assms])
  show ?thesis
    using hs ex
    by (simp add: try_provider_def b g1 [symmetric] Let_def case_prod_beta
        split: http_outcome.split option.split)
qed

text \<open>What a run of the loop over registry providers does to the state, whatever the cursor.\<close>

lemma fetch_loop_state:
  assumes "set ps \<subseteq> set API_PROVIDERS"
  shows "RAPIDAPI_KEYS (fst (snd (fetch_loop axios link ps g sent))) = RAPIDAPI_KEYS g
       \<and> keyIndex g \<le> keyIndex (fst (snd (fetch_loop axios link ps g sent)))
       \<and> (\<exists>k. fst (snd (fetch_loop axios link ps g sent)) = g\<lparr>keyIndex := k\<rparr>)"
  using assms
proof (induction ps arbitrary: g sent)
  case Nil
  have "\<exists>k. g = g\<lparr>keyIndex := k\<rparr>" by (rule exI [of _ "keyIndex g"]) simp
  then show ?case by simp
next
  case (Cons p ps)
  let ?g1 = "snd (getNextKey g)"
  from Cons.prems have p: "p \<in> set API_PROVIDERS" and ps: "set ps \<subseteq> set API_PROVIDERS"
    by simp_all
  from try_provider_frame [OF p, of axios link g sent]
  obtain req where req: "snd (try_provider axios link p g sent) = (?g1, sent @ [req])"
    by blast
  obtain out where out: "try_provider axios link p g sent = (out, ?g1, sent @ [req])"
    using req by (metis prod.collapse)
  have g1: "RAPIDAPI_KEYS ?g1 = RAPIDAPI_KEYS g" "keyIndex g \<le> keyIndex ?g1"
      "?g1 = g\<lparr>keyIndex := keyIndex ?g1\<rparr>"
    by (simp_all add: getNextKey_def increment_def)
  show ?case
  proof (cases "\<exists>r. out = Returned r")
    case True
    then obtain r where "out = Returned r" by blast
    with out have "fst (snd (fetch_loop axios link (p # ps) g sent)) = ?g1" by simp
    with g1 show ?thesis by metis
  next
    case False
    with out have step: "fetch_loop axios link (p # ps) g sent
        = fetch_loop axios link ps ?g1 (sent @ [req])"
      by (cases out) simp_all
    from Cons.IH [OF ps, of ?g1 "sent @ [req]"]
    obtain k where ih: "RAPIDAPI_KEYS (fst (snd (fetch_loop axios link ps ?g1 (sent @ [req]))))
          = RAPIDAPI_KEYS ?g1"
      "keyIndex ?g1 \<le> keyIndex (fst (snd (fetch_loop axios link ps ?g1 (sent @ [req]))))"
      "fst (snd (fetch_loop axios link ps ?g1 (sent @ [req]))) = ?g1\<lparr>keyIndex := k\<rparr>"
      by blast
    from ih(3) g1(3) have "fst (snd (fetch_loop axios link ps ?g1 (sent @ [req])))
        = g\<lparr>keyIndex := k\<rparr>"
      by (metis globals.update_convs(2) globals.surjective globals.select_convs(1)
          globals.select_convs(3))
    with ih(1,2) g1(1,2) show ?thesis unfolding step by (metis le_trans)
  qed
qed

text \<open>The same run while the cursor is exact.\<close>

lemma fetch_loop_frame:
  assumes "set ps \<subseteq> set API_PROVIDERS" and "keyIndex g + length ps \<le> 9007199254740992"
  shows "\<exists>reqs. snd (fetch_loop axios link ps g sent)
             = (g\<lparr>keyIndex := keyIndex g + length reqs\<rparr>, sent @ reqs)
           \<and> length reqs \<le> length ps
           \<and> (\<forall>i<length reqs. x_rapidapi_key (req_headers (reqs ! i))
                 = fst (getNextKey (g\<lparr>keyIndex := keyIndex g + i\<rparr>)))"
  using assms
proof (induction ps arbitrary: g sent)
  case Nil
  have "snd (fetch_loop axios link [] g sent)
      = (g\<lparr>keyIndex := keyIndex g + length ([]::request list)\<rparr>, sent @ [])"
    by simp
  then show ?case by (intro exI [of _ "[]"]) simp
next
  case (Cons p ps)
  let ?g1 = "g\<lparr>keyIndex := keyIndex g + 1\<rparr>"
  from Cons.prems have p: "p \<in> set API_PROVIDERS" and ps: "set ps \<subseteq> set API_PROVIDERS"
    and lt: "keyIndex g < 9007199254740992"
    and bound: "keyIndex ?g1 + length ps \<le> 9007199254740992"
    by simp_all
  have g1: "snd (getNextKey g) = ?g1" using lt by (rule getNextKey_snd)
  from try_provider_frame [OF p, of axios link g sent]
  obtain req where req: "snd (try_provider axios link p g sent) = (?g1, sent @ [req])"
      "x_rapidapi_key (req_headers req) = fst (getNextKey g)"
    unfolding g1 by blast
  obtain out where out: "try_provider axios link p g sent = (out, ?g1, sent @ [req])"
    using req(1) by (metis prod.collapse)
  show ?case
  proof (cases "\<exists>r. out = Returned r")
    case True
    then obtain r where "out = Returned r" by blast
    with out have "snd (fetch_loop axios link (p # ps) g sent)
        = (g\<lparr>keyIndex := keyIndex g + length [req]\<rparr>, sent @ [req])"
      by simp
    with req(2) show ?thesis
      by (intro exI [of _ "[req]"]) simp
  next
    case False
    with out have step: "fetch_loop axios link (p # ps) g sent
        = fetch_loop axios link ps ?g1 (sent @ [req])"
      by (cases out) simp_all
    from Cons.IH [OF ps bound, of "sent @ [req]"]
    obtain reqs where reqs: "snd (fetch_loop axios link ps ?g1 (sent @ [req]))
             = (?g1\<lparr>keyIndex := keyIndex ?g1 + length reqs\<rparr>, (sent @ [req]) @ reqs)"
       "length reqs \<le> length ps"
       "\<forall>i<length reqs. x_rapidapi_key (req_headers (reqs ! i))
                 = fst (getNextKey (?g1\<lparr>keyIndex := keyIndex ?g1 + i\<rparr>))"
      by blast
    have keys: "\<forall>i<length (req # reqs). x_rapidapi_key (req_headers ((req # reqs) ! i))
                 = fst (getNextKey (g\<lparr>keyIndex := keyIndex g + i\<rparr>))"
    proof (intro allI impI)
      fix i assume "i < length (req # reqs)"
      then show "x_rapidapi_key (req_headers ((req # reqs) ! i))
                 = fst (getNextKey (g\<lparr>keyIndex := keyIndex g + i\<rparr>))"
        using req(2) reqs(3) by (cases i) (simp_all add: getNextKey_fst)
    qed
    have "snd (fetch_loop axios link (p # ps) g sent)
        = (g\<lparr>keyIndex := keyIndex g + length (req # reqs)\<rparr>, sent @ (req # reqs))"
      using step reqs(1) by simp
    with keys reqs(2) show ?thesis
      by (intro exI [of _ "req # reqs"]) simp
  qed
qed

text \<open>
  C7. A call of \<open>fetchViaProviders\<close> changes nothing of the module's state but the
  cursor: the credential pool is unchanged, the registry is a constant that no operation
  writes, and no operation lowers the cursor (\<open>getNextKey\<close> and each \<open>buildHeaders\<close>
  never lower it, each \<open>extract\<close> leaves the state). While the cursor is exact, that
  is while it stays at or below \<open>2^53\<close> through the call, it goes up by one for each
  provider attempted (each request sent), \<open>getNextKey\<close> and each \<open>buildHeaders\<close> raise
  it by exactly one, and the key of the \<open>i\<close>-th request is the one \<open>getNextKey\<close>
  draws at cursor \<open>keyIndex + i\<close>.
\<close>

theorem fetchViaProviders_frame:
  "RAPIDAPI_KEYS (fst (snd (fetchViaProviders axios link g))) = RAPIDAPI_KEYS g
   \<and> keyIndex g \<le> keyIndex (fst (snd (fetchViaProviders axios link g)))
   \<and> (\<exists>k. fst (snd (fetchViaProviders axios link g)) = g\<lparr>keyIndex := k\<rparr>)
   \<and> keyIndex g \<le> keyIndex (snd (getNextKey g))
   \<and> (\<forall>p \<in> set API_PROVIDERS.
         keyIndex g \<le> keyIndex (snd (buildHeaders p g)) \<and> snd (extractFn p body g) = g)
   \<and> (keyIndex g + length API_PROVIDERS \<le> 9007199254740992 \<longrightarrow>
        fst (snd (fetchViaProviders axios link g))
          = g\<lparr>keyIndex := keyIndex g + length (snd (snd (fetchViaProviders axios link g)))\<rparr>
        \<and> length (snd (snd (fetchViaProviders axios link g))) \<le> length API_PROVIDERS
        \<and> (\<forall>i<length (snd (snd (fetchViaProviders axios link g))).
              x_rapidapi_key (req_headers (snd (snd (fetchViaProviders axios link g)) ! i))
                = fst (getNextKey (g\<lparr>keyIndex := keyIndex g + i\<rparr>)))
        \<and> snd (getNextKey g) = g\<lparr>keyIndex := keyIndex g + 1\<rparr>
        \<and> (\<forall>p \<in> set API_PROVIDERS.
              snd (buildHeaders p g) = g\<lparr>keyIndex := keyIndex g + 1\<rparr>))"
proof -
  have unfold: "fetchViaProviders axios link g = fetch_loop axios link API_PROVIDERS g []"
    by (simp add: fetchViaProviders_def fetchViaRegistry_def)
  from fetch_loop_state [of API_PROVIDERS axios link g "[]"]
  have always: "RAPIDAPI_KEYS (fst (snd (fetchViaProviders axios link g))) = RAPIDAPI_KEYS g
      \<and> keyIndex g \<le> keyIndex (fst (snd (fetchViaProviders axios link g)))
      \<and> (\<exists>k. fst (snd (fetchViaProviders axios link g)) = g\<lparr>keyIndex := k\<rparr>)"
    unfolding unfold by simp
  have mono: "keyIndex g \<le> keyIndex (snd (getNextKey g))"
    by (rule getNextKey_keyIndex_mono)
  have ops: "\<forall>p \<in> set API_PROVIDERS.
         keyIndex g \<le> keyIndex (snd (buildHeaders p g)) \<and> snd (extractFn p body g) = g"
    using registry_buildHeaders [of _ g] registry_extract_state [of _ body g] mono by simp
  have exact: "fst (snd (fetchViaProviders axios link g))
          = g\<lparr>keyIndex := keyIndex g + length (snd (snd (fetchViaProviders axios link g)))\<rparr>
        \<and> length (snd (snd (fetchViaProviders axios link g))) \<le> length API_PROVIDERS
        \<and> (\<forall>i<length (snd (snd (fetchViaProviders axios link g))).
              x_rapidapi_key (req_headers (snd (snd (fetchViaProviders axios link g)) ! i))
                = fst (getNextKey (g\<lparr>keyIndex := keyIndex g + i\<rparr>)))
        \<and> snd (getNextKey g) = g\<lparr>keyIndex := keyIndex g + 1\<rparr>
        \<and> (\<forall>p \<in> set API_PROVIDERS.
              snd (buildHeaders p g) = g\<lparr>keyIndex := keyIndex g + 1\<rparr>)"
    if bound: "keyIndex g + length API_PROVIDERS \<le> 9007199254740992"
  proof -
    from fetch_loop_frame [of API_PROVIDERS g axios link "[]", OF subset_refl bound]
    obtain reqs where reqs:
      "snd (fetchViaProviders axios link g) = (g\<lparr>keyIndex := keyIndex g + length reqs\<rparr>, reqs)"
      "length reqs \<le> length API_PROVIDERS"
      "\<forall>i<length reqs. x_rapidapi_key (req_headers (reqs ! i))
                 = fst (getNextKey (g\<lparr>keyIndex := keyIndex g + i\<rparr>))"
      unfolding unfold by auto
    from bound have "keyIndex g < 9007199254740992" by (simp add: API_PROVIDERS_def)
    then have one: "snd (getNextKey g) = g\<lparr>keyIndex := keyIndex g + 1\<rparr>"
      by (rule getNextKey_snd)
    then have "\<forall>p \<in> set API_PROVIDERS.
              snd (buildHeaders p g) = g\<lparr>keyIndex := keyIndex g + 1\<rparr>"
      using registry_buildHeaders [of _ g] by simp
    with one reqs show ?thesis by simp
  qed
  from always mono ops exact show ?thesis by blast
qed

theorem fetchViaProviders_frame_witness:
  "fst (snd (fetchViaProviders (\<lambda>sent req. Rejected) (utf16 ''https://vm.tiktok.com/ZMabc123/'')
        \<lparr>RAPIDAPI_KEYS = [utf16 ''k1'', utf16 ''k2'', utf16 ''k3''], keyIndex = 4\<rparr>))
     = \<lparr>RAPIDAPI_KEYS = [utf16 ''k1'', utf16 ''k2'', utf16 ''k3''], keyIndex = 6\<rparr>
   \<and> map (\<lambda>req. x_rapidapi_key (req_headers req))
        (snd (snd (fetchViaProviders (\<lambda>sent req. Rejected)
           (utf16 ''https://vm.tiktok.com/ZMabc123/'')
           \<lparr>RAPIDAPI_KEYS = [utf16 ''k1'', utf16 ''k2'', utf16 ''k3''], keyIndex = 4\<rparr>)))
     = [Str (utf16 ''k2''), Str (utf16 ''k3'')]"
proof -
  let ?g = "\<lparr>RAPIDAPI_KEYS = [utf16 ''k1'', utf16 ''k2'', utf16 ''k3''], keyIndex = 4\<rparr>"
  let ?R = "fetchViaProviders (\<lambda>sent req. Rejected) (utf16 ''https://vm.tiktok.com/ZMabc123/'') ?g"
  have len: "length (snd (snd ?R)) = 2"
    by (simp add: fetchViaProviders_def fetchViaRegistry_def try_provider_def provider_defs
        getNextKey_def Let_def)
  have bound: "keyIndex ?g + length API_PROVIDERS \<le> 9007199254740992"
    by (simp add: API_PROVIDERS_def)
  from fetchViaProviders_frame [of "\<lambda>sent req. Rejected"
      "utf16 ''https://vm.tiktok.com/ZMabc123/''" ?g Null] bound
  have fr: "fst (snd ?R) = ?g\<lparr>keyIndex := keyIndex ?g + length (snd (snd ?R))\<rparr>
        \<and> (\<forall>i<length (snd (snd ?R)).
              x_rapidapi_key (req_headers (snd (snd ?R) ! i))
                = fst (getNextKey (?g\<lparr>keyIndex := keyIndex ?g + i\<rparr>)))"
    by blast
  from fr have st: "fst (snd ?R) = ?g\<lparr>keyIndex := keyIndex ?g + 2\<rparr>"
    unfolding len by blast
  from fr have k0: "x_rapidapi_key (req_headers (snd (snd ?R) ! 0))
      = fst (getNextKey (?g\<lparr>keyIndex := keyIndex ?g + 0\<rparr>))" unfolding len by simp
  from fr have k1: "x_rapidapi_key (req_headers (snd (snd ?R) ! 1))
      = fst (getNextKey (?g\<lparr>keyIndex := keyIndex ?g + 1\<rparr>))" unfolding len by simp
  have "map (\<lambda>req. x_rapidapi_key (req_headers req)) (snd (snd ?R))
      = [x_rapidapi_key (req_headers (snd (snd ?R) ! 0)),
         x_rapidapi_key (req_headers (snd (snd ?R) ! 1))]"
    using len by (intro nth_equalityI) (auto simp: less_Suc_eq numeral_2_eq_2)
  with st k0 k1 show ?thesis by (simp add: getNextKey_fst)
qed

theorem extract_title_author_witness:
  "fst (extractFn RapidAPI_1 (Obj [(utf16 ''data'', Obj [(utf16 ''play'', Str (utf16 ''u'')),
        (utf16 ''title'', Str [])])]) (initial_globals [utf16 ''k1'']))
     = Some \<lparr>videoUrl = Str (utf16 ''u''), title = Str (utf16 ''TikTok Video''),
             author = Str (utf16 ''Unknown'')\<rparr>
   \<and> title \<lparr>videoUrl = Str (utf16 ''u''), title = Str (utf16 ''TikTok Video''),
             author = Str (utf16 ''Unknown'')\<rparr> = Str (utf16 ''TikTok Video'')
   \<and> fst (extractFn RapidAPI_2 (Obj [(utf16 ''play'', Str (utf16 ''u'')),
        (utf16 ''author'', Str (utf16 ''bob''))]) (initial_globals [utf16 ''k1'']))
     = Some \<lparr>videoUrl = Str (utf16 ''u''), title = Str (utf16 ''TikTok Video''),
             author = Str (utf16 ''bob'')\<rparr>"
proof -
  let ?b1 = "Obj [(utf16 ''data'', Obj [(utf16 ''play'', Str (utf16 ''u'')),
        (utf16 ''title'', Str [])])]"
  let ?b2 = "Obj [(utf16 ''play'', Str (utf16 ''u'')), (utf16 ''author'', Str (utf16 ''bob''))]"
  let ?g = "initial_globals [utf16 ''k1'']"
  note t1 = extract_title_author [of ?b1 ?g]
  note t2 = extract_title_author [of ?b2 ?g]
  have p1: "truthy (get (get ?b1 Data) Play)" by (simp add: utf16_def)
  have p2: "truthy (get ?b2 Play)" by (simp add: utf16_def)
  from t1 p1 obtain n1 where n1: "fst (extractFn RapidAPI_1 ?b1 ?g) = Some n1"
    by (cases "fst (extractFn RapidAPI_1 ?b1 ?g)") auto
  from t2 p2 obtain n2 where n2: "fst (extractFn RapidAPI_2 ?b2 ?g) = Some n2"
    by (cases "fst (extractFn RapidAPI_2 ?b2 ?g)") auto
  from t1 n1 have "title n1 = Str (utf16 ''TikTok Video'')"
      "author n1 = Str (utf16 ''Unknown'')"
    by (simp_all add: utf16_def)
  moreover have "videoUrl n1 = Str (utf16 ''u'')"
    using n1 by (simp add: provider_defs utf16_def split: if_splits) auto
  moreover from t2 n2 have "title n2 = Str (utf16 ''TikTok Video'')"
      "author n2 = Str (utf16 ''bob'')"
    by (simp_all add: utf16_def)
  moreover have "videoUrl n2 = Str (utf16 ''u'')"
    using n2 by (simp add: provider_defs js_or_def utf16_def split: if_splits) auto
  ultimately show ?thesis using n1 n2 by (cases n1; cases n2) simp
qed

theorem extract_pure_witness:
  "RapidAPI_2 \<in> set API_PROVIDERS
   \<and> snd (extractFn RapidAPI_2 (Obj [(utf16 ''play'', Str (utf16 ''u''))])
        (initial_globals [utf16 ''k1''])) = initial_globals [utf16 ''k1'']
   \<and> fst (extractFn RapidAPI_2 (Obj [(utf16 ''play'', Str (utf16 ''u''))])
        (snd (extractFn RapidAPI_2 (Obj [(utf16 ''play'', Str (utf16 ''u''))])
           (initial_globals [utf16 ''k1''])))) =
      fst (extractFn RapidAPI_2 (Obj [(utf16 ''play'', Str (utf16 ''u''))])
        (initial_globals [utf16 ''k1'']))
   \<and> fst (extractFn RapidAPI_2 (Obj [(utf16 ''play'', Str (utf16 ''u''))])
        \<lparr>RAPIDAPI_KEYS = [utf16 ''k9''], keyIndex = 7\<rparr>) =
      fst (extractFn RapidAPI_2 (Obj [(utf16 ''play'', Str (utf16 ''u''))])
        (initial_globals [utf16 ''k1'']))"
proof -
  have mem: "RapidAPI_2 \<in> set API_PROVIDERS" by (simp add: API_PROVIDERS_def)
  from extract_pure [OF mem, of "Obj [(utf16 ''play'', Str (utf16 ''u''))]"
      "initial_globals [utf16 ''k1'']" "\<lparr>RAPIDAPI_KEYS = [utf16 ''k9''], keyIndex = 7\<rparr>"] mem
  show ?thesis by blast
qed

theorem extract_videoUrl_truthy_witness:
  "RapidAPI_1 \<in> set API_PROVIDERS
   \<and> fst (extractFn RapidAPI_1 (Obj [(utf16 ''data'', Obj [(utf16 ''play'', Str (utf16 ''u''))])])
        (snd (buildHeaders RapidAPI_1 (initial_globals [utf16 ''k1''])))) =
      Some \<lparr>videoUrl = Str (utf16 ''u''), title = Str (utf16 ''TikTok Video''),
             author = Str (utf16 ''Unknown'')\<rparr>
   \<and> fst (try_provider
        (\<lambda>sent req. Resolved (Obj [(utf16 ''data'', Obj [(utf16 ''play'', Str (utf16 ''u''))])]))
        (utf16 ''https://vm.tiktok.com/ZMabc123/'') RapidAPI_1 (initial_globals [utf16 ''k1'']) [])
     = Returned (Ok (name RapidAPI_1)
         \<lparr>videoUrl = Str (utf16 ''u''), title = Str (utf16 ''TikTok Video''),
          author = Str (utf16 ''Unknown'')\<rparr>)"
proof -
  let ?b = "Obj [(utf16 ''data'', Obj [(utf16 ''play'', Str (utf16 ''u''))])]"
  let ?g = "initial_globals [utf16 ''k1'']"
  have mem: "RapidAPI_1 \<in> set API_PROVIDERS" by (simp add: API_PROVIDERS_def)
  have ex: "fst (extractFn RapidAPI_1 ?b (snd (buildHeaders RapidAPI_1 ?g))) =
      Some \<lparr>videoUrl = Str (utf16 ''u''), title = Str (utf16 ''TikTok Video''),
             author = Str (utf16 ''Unknown'')\<rparr>"
    by (simp add: provider_defs js_or_def utf16_def)
  have ax: "\<forall>req. (\<lambda>sent req. Resolved ?b) ([]::request list) (req::request) = Resolved ?b"
    by simp
  from extract_videoUrl_truthy [of ?b ?g "\<lambda>sent req. Resolved ?b" "[]"
      "utf16 ''https://vm.tiktok.com/ZMabc123/''"] mem ax ex
  have "fst (try_provider (\<lambda>sent req. Resolved ?b) (utf16 ''https://vm.tiktok.com/ZMabc123/'')
          RapidAPI_1 ?g []) = Returned (Ok (name RapidAPI_1)
         \<lparr>videoUrl = Str (utf16 ''u''), title = Str (utf16 ''TikTok Video''),
          author = Str (utf16 ''Unknown'')\<rparr>)"
    by blast
  with mem ex show ?thesis by blast
qed

section \<open>Properties of the URL validator\<close>

lemma re_lit_iff:
  "r \<in> set (re_lit p s) \<longleftrightarrow> (\<exists>a. s = a @ r \<and> map Canonicalize a = map Canonicalize p)"
proof
  assume "r \<in> set (re_lit p s)"
  then have eq: "map Canonicalize (take (length p) s) = map Canonicalize p"
    and r: "r = drop (length p) s"
    by (auto simp: re_lit_def split: if_splits)
  have "s = take (length p) s @ r" using r by simp
  with eq show "\<exists>a. s = a @ r \<and> map Canonicalize a = map Canonicalize p" by blast
next
  assume "\<exists>a. s = a @ r \<and> map Canonicalize a = map Canonicalize p"
  then obtain a where a: "s = a @ r" "map Canonicalize a = map Canonicalize p" by blast
  from a(2) have "length a = length p" by (rule map_eq_imp_length_eq)
  with a show "r \<in> set (re_lit p s)" by (simp add: re_lit_def)
qed

lemma re_opt_iff: "r \<in> set (re_opt m s) \<longleftrightarrow> r \<in> set (m s) \<or> r = s"
  by (auto simp: re_opt_def)

lemma re_seq_iff: "r \<in> set (re_seq m1 m2 s) \<longleftrightarrow> (\<exists>r1 \<in> set (m1 s). r \<in> set (m2 r1))"
  by (auto simp: re_seq_def)

lemma re_non_space_plus_iff:
  "r \<in> set (re_non_space_plus s) \<longleftrightarrow>
     (\<exists>k. 1 \<le> k \<and> k \<le> length (takeWhile (\<lambda>c. \<not> is_space c) s) \<and> r = drop k s)"
  by (auto simp: re_non_space_plus_def)

text \<open>
  Two properties of every matcher built here. Extension: a way of matching a text is a
  way of matching the text with more after it. Locality: a way of matching that leaves
  \<open>r\<close> uses up the text before \<open>r\<close>, and matches that part as a whole.
\<close>

lemma re_lit_ext: "r \<in> set (re_lit p a) \<Longrightarrow> r @ x \<in> set (re_lit p (a @ x))"
  by (auto simp: re_lit_iff)

lemma re_lit_loc: "r \<in> set (re_lit p s) \<Longrightarrow> \<exists>a. s = a @ r \<and> [] \<in> set (re_lit p a)"
  by (auto simp: re_lit_iff)

lemma re_opt_ext:
  assumes "\<And>a r x. r \<in> set (m a) \<Longrightarrow> r @ x \<in> set (m (a @ x))"
  shows "r \<in> set (re_opt m a) \<Longrightarrow> r @ x \<in> set (re_opt m (a @ x))"
  using assms by (auto simp: re_opt_iff)

lemma re_opt_loc:
  assumes "\<And>s r. r \<in> set (m s) \<Longrightarrow> \<exists>a. s = a @ r \<and> [] \<in> set (m a)"
  shows "r \<in> set (re_opt m s) \<Longrightarrow> \<exists>a. s = a @ r \<and> [] \<in> set (re_opt m a)"
  using assms by (fastforce simp: re_opt_iff)

lemma re_seq_ext:
  assumes "\<And>a r x. r \<in> set (m1 a) \<Longrightarrow> r @ x \<in> set (m1 (a @ x))"
      and "\<And>a r x. r \<in> set (m2 a) \<Longrightarrow> r @ x \<in> set (m2 (a @ x))"
  shows "r \<in> set (re_seq m1 m2 a) \<Longrightarrow> r @ x \<in> set (re_seq m1 m2 (a @ x))"
  using assms by (fastforce simp: re_seq_iff)

lemma re_seq_loc:
  assumes e1: "\<And>a r x. r \<in> set (m1 a) \<Longrightarrow> r @ x \<in> set (m1 (a @ x))"
      and l1: "\<And>s r. r \<in> set (m1 s) \<Longrightarrow> \<exists>a. s = a @ r \<and> [] \<in> set (m1 a)"
      and l2: "\<And>s r. r \<in> set (m2 s) \<Longrightarrow> \<exists>a. s = a @ r \<and> [] \<in> set (m2 a)"
      and r: "r \<in> set (re_seq m1 m2 s)"
  shows "\<exists>a. s = a @ r \<and> [] \<in> set (re_seq m1 m2 a)"
proof -
  from r obtain r1 where r1: "r1 \<in> set (m1 s)" "r \<in> set (m2 r1)"
    by (auto simp: re_seq_iff)
  from l1 [OF r1(1)] obtain a where a: "s = a @ r1" "[] \<in> set (m1 a)" by blast
  from l2 [OF r1(2)] obtain b where b: "r1 = b @ r" "[] \<in> set (m2 b)" by blast
  from e1 [OF a(2), of b] have "b \<in> set (m1 (a @ b))" by simp
  with b(2) have "[] \<in> set (re_seq m1 m2 (a @ b))" by (auto simp: re_seq_iff)
  moreover have "s = (a @ b) @ r" using a(1) b(1) by simp
  ultimately show ?thesis by blast
qed

lemma length_takeWhile_append_ge:
  "length (takeWhile P a) \<le> length (takeWhile P (a @ x))"
  by (induction a) auto

lemma re_non_space_plus_ext:
  assumes "r \<in> set (re_non_space_plus a)"
  shows "r @ x \<in> set (re_non_space_plus (a @ x))"
proof -
  from assms obtain k where k: "1 \<le> k" "k \<le> length (takeWhile (\<lambda>c. \<not> is_space c) a)"
      "r = drop k a"
    by (auto simp: re_non_space_plus_iff)
  have "k \<le> length a" using k(2) length_takeWhile_le [of "\<lambda>c. \<not> is_space c" a] by simp
  then have "r @ x = drop k (a @ x)" using k(3) by simp
  moreover have "k \<le> length (takeWhile (\<lambda>c. \<not> is_space c) (a @ x))"
    using k(2) length_takeWhile_append_ge [of "\<lambda>c. \<not> is_space c" a x] by simp
  ultimately show ?thesis using k(1) by (auto simp: re_non_space_plus_iff)
qed

lemma takeWhile_take_le:
  "k \<le> length (takeWhile P s) \<Longrightarrow> takeWhile P (take k s) = take k s"
proof (induction s arbitrary: k)
  case Nil
  then show ?case by simp
next
  case (Cons c s)
  then show ?case by (cases k) (auto split: if_splits)
qed

lemma re_non_space_plus_loc:
  assumes "r \<in> set (re_non_space_plus s)"
  shows "\<exists>a. s = a @ r \<and> [] \<in> set (re_non_space_plus a)"
proof -
  from assms obtain k where k: "1 \<le> k" "k \<le> length (takeWhile (\<lambda>c. \<not> is_space c) s)"
      "r = drop k s"
    by (auto simp: re_non_space_plus_iff)
  have le: "k \<le> length s" using k(2) length_takeWhile_le [of "\<lambda>c. \<not> is_space c" s] by simp
  have tw: "takeWhile (\<lambda>c. \<not> is_space c) (take k s) = take k s"
    using k(2) by (rule takeWhile_take_le)
  have "length (takeWhile (\<lambda>c. \<not> is_space c) (take k s)) = k"
    unfolding tw using le by simp
  then have "[] \<in> set (re_non_space_plus (take k s))"
    using k(1) le unfolding re_non_space_plus_iff by (intro exI [of _ k]) simp
  moreover have "s = take k s @ r" using k(3) by simp
  ultimately show ?thesis by blast
qed

lemma TIKTOK_REGEX_ext:
  "r \<in> set (TIKTOK_REGEX a) \<Longrightarrow> r @ x \<in> set (TIKTOK_REGEX (a @ x))"
  unfolding TIKTOK_REGEX_def
  by (intro re_seq_ext re_opt_ext re_lit_ext re_non_space_plus_ext)

lemma TIKTOK_REGEX_loc:
  "r \<in> set (TIKTOK_REGEX s) \<Longrightarrow> \<exists>a. s = a @ r \<and> [] \<in> set (TIKTOK_REGEX a)"
  unfolding TIKTOK_REGEX_def
  by (intro re_seq_loc re_opt_loc re_lit_loc re_non_space_plus_loc
      re_seq_ext re_opt_ext re_lit_ext re_non_space_plus_ext)


lemma match_here_SomeD:
  assumes "match_here s = Some m"
  shows "\<exists>post. s = m @ post \<and> matches_pattern m"
proof -
  from assms obtain r rs where r: "TIKTOK_REGEX s = r # rs" "m = take (length s - length r) s"
    by (auto simp: match_here_def split: list.splits)
  then have "r \<in> set (TIKTOK_REGEX s)" by simp
  from TIKTOK_REGEX_loc [OF this] obtain a where a: "s = a @ r" "[] \<in> set (TIKTOK_REGEX a)"
    by blast
  from a(1) r(2) have "m = a" by simp
  with a show ?thesis by (auto simp: matches_pattern_def)
qed

lemma match_here_of_match:
  assumes "matches_pattern m"
  shows "\<exists>m'. match_here (m @ post) = Some m'"
proof -
  from assms have "[] \<in> set (TIKTOK_REGEX m)" by (simp add: matches_pattern_def)
  from TIKTOK_REGEX_ext [OF this, of post] have "post \<in> set (TIKTOK_REGEX (m @ post))" by simp
  then show ?thesis by (cases "TIKTOK_REGEX (m @ post)") (auto simp: match_here_def)
qed

lemma regex_match_NoneD:
  "regex_match (pre @ rest) = None \<Longrightarrow> match_here rest = None"
proof (induction pre)
  case Nil
  then show ?case by (cases rest) (simp_all split: option.splits)
next
  case (Cons c pre)
  then show ?case by (simp split: option.splits)
qed

lemma regex_match_here:
  "match_here s = Some m \<Longrightarrow> regex_match s = Some m"
  by (cases s) simp_all

lemma regex_match_first:
  assumes "match_here rest = Some m"
      and "\<And>k. k < length pre \<Longrightarrow> match_here (drop k (pre @ rest)) = None"
  shows "regex_match (pre @ rest) = Some m"
  using assms
proof (induction pre)
  case Nil
  then show ?case by (simp add: regex_match_here)
next
  case (Cons c pre)
  have "match_here (drop 0 ((c # pre) @ rest)) = None"
    by (rule Cons.prems(2)) simp
  then have step: "regex_match ((c # pre) @ rest) = regex_match (pre @ rest)" by simp
  have "match_here (drop k (pre @ rest)) = None" if "k < length pre" for k
  proof -
    from that have "Suc k < length (c # pre)" by simp
    from Cons.prems(2) [OF this] show ?thesis by simp
  qed
  with Cons.IH [OF Cons.prems(1)] step show ?case by simp
qed

lemma regex_match_SomeD:
  "regex_match s = Some m \<Longrightarrow>
     \<exists>pre rest. s = pre @ rest \<and> match_here rest = Some m
       \<and> (\<forall>k<length pre. match_here (drop k s) = None)"
proof (induction s)
  case Nil
  then show ?case
    by (intro exI [of _ "[]"]) simp
next
  case (Cons c cs)
  show ?case
  proof (cases "match_here (c # cs)")
    case (Some m')
    with Cons.prems have "m' = m" by simp
    with Some show ?thesis
      by (intro exI [of _ "[]"] exI [of _ "c # cs"]) simp
  next
    case None
    with Cons.prems have "regex_match cs = Some m" by simp
    from Cons.IH [OF this] obtain pre rest where pr: "cs = pre @ rest" "match_here rest = Some m"
      "\<forall>k<length pre. match_here (drop k cs) = None"
      by blast
    have "match_here (drop k (c # cs)) = None" if a: "k < length (c # pre)" for k
    proof (cases k)
      case 0
      with None show ?thesis by simp
    next
      case (Suc j)
      with a have "j < length pre" by simp
      with pr(3) Suc show ?thesis by simp
    qed
    then show ?thesis using pr(1,2)
      by (intro exI [of _ "c # pre"] exI [of _ rest]) simp
  qed
qed


lemma Canonicalize_toLowerCase: "toLowerCase (map Canonicalize a) = toLowerCase a"
  by (induction a) (auto simp: toLowerCase_def Canonicalize_def)

lemma ci_toLowerCase:
  "map Canonicalize a = map Canonicalize p \<Longrightarrow> toLowerCase a = toLowerCase p"
  by (metis Canonicalize_toLowerCase)

lemma ci_list_all:
  assumes "\<And>c. R (Canonicalize c) = R c" and "map Canonicalize a = map Canonicalize p"
  shows "list_all R a = list_all R p"
proof -
  have "list_all R (map Canonicalize xs) = list_all R xs" for xs
    using assms(1) by (induction xs) simp_all
  with assms(2) show ?thesis by metis
qed

lemma alpha_Canonicalize: "is_ascii_alpha (Canonicalize c) = is_ascii_alpha c"
  by (auto simp: is_ascii_alpha_def Canonicalize_def)

lemma alphadot_Canonicalize:
  "(is_ascii_alpha (Canonicalize c) \<or> Canonicalize c = 46) = (is_ascii_alpha c \<or> c = 46)"
  by (auto simp: is_ascii_alpha_def Canonicalize_def)

lemma re_lit_all:
  assumes "r \<in> set (re_lit p s)" and "\<And>c. R (Canonicalize c) = R c" and "list_all R p"
  shows "\<exists>a. s = a @ r \<and> list_all R a \<and> toLowerCase a = toLowerCase p"
proof -
  from assms(1) obtain a where a: "s = a @ r" "map Canonicalize a = map Canonicalize p"
    by (auto simp: re_lit_iff)
  from ci_list_all [of R, OF assms(2) a(2)] assms(3) have "list_all R a" by simp
  with a ci_toLowerCase [OF a(2)] show ?thesis by blast
qed

lemma re_opt_lit_all:
  assumes "r \<in> set (re_opt (re_lit p) s)" and "\<And>c. R (Canonicalize c) = R c" and "list_all R p"
  shows "\<exists>a. s = a @ r \<and> list_all R a \<and> (a = [] \<or> toLowerCase a = toLowerCase p)"
proof -
  from assms(1) consider "r \<in> set (re_lit p s)" | "r = s" by (auto simp: re_opt_iff)
  then show ?thesis
  proof cases
    case 1
    from re_lit_all [OF 1 assms(2,3)] show ?thesis by blast
  next
    case 2
    then show ?thesis by (intro exI [of _ "[]"]) simp
  qed
qed

lemma re_lit_colon_slashes:
  assumes "r \<in> set (re_lit (utf16 ''://'') s)"
  shows "s = [58, 47, 47] @ r"
proof -
  from assms obtain a where a: "s = a @ r" "map Canonicalize a = map Canonicalize (utf16 ''://'')"
    by (auto simp: re_lit_iff)
  from a(2) have "a = [58, 47, 47]"
    by (auto simp: utf16_def map_eq_Cons_conv Canonicalize_def split: if_splits)
  with a(1) show ?thesis by simp
qed

lemma re_lit_tiktok:
  assumes "r \<in> set (re_lit (utf16 ''tiktok.com/'') s)"
  shows "\<exists>b. s = b @ 47 # r \<and> b \<noteq> [] \<and> list_all (\<lambda>c. is_ascii_alpha c \<or> c = 46) b"
proof -
  from assms obtain a where a: "s = a @ r"
      "map Canonicalize a = map Canonicalize (utf16 ''tiktok.com/'')"
    by (auto simp: re_lit_iff)
  have split: "utf16 ''tiktok.com/'' = utf16 ''tiktok.com'' @ [47]" by (simp add: utf16_def)
  from a(2) obtain b v where bv: "a = b @ [v]"
      "map Canonicalize b = map Canonicalize (utf16 ''tiktok.com'')" "Canonicalize v = Canonicalize 47"
    unfolding split by (auto simp: map_eq_append_conv map_eq_Cons_conv)
  from bv(3) have v: "v = 47" by (auto simp: Canonicalize_def split: if_splits)
  have "list_all (\<lambda>c. is_ascii_alpha c \<or> c = 46) (utf16 ''tiktok.com'')"
    by (simp add: utf16_def is_ascii_alpha_def)
  with ci_list_all [of "\<lambda>c. is_ascii_alpha c \<or> c = 46", OF alphadot_Canonicalize bv(2)]
  have all: "list_all (\<lambda>c. is_ascii_alpha c \<or> c = 46) b" by simp
  from bv(2) have "length b = length (utf16 ''tiktok.com'')" by (rule map_eq_imp_length_eq)
  then have "b \<noteq> []" by (auto simp: utf16_def)
  with a(1) bv(1) v all show ?thesis by auto
qed


lemma matches_pattern_shape:
  assumes "matches_pattern m"
  shows "\<exists>sch h rest. m = sch @ [58, 47, 47] @ h @ 47 # rest
           \<and> (toLowerCase sch = utf16 ''http'' \<or> toLowerCase sch = utf16 ''https'')
           \<and> list_all is_ascii_alpha sch
           \<and> h \<noteq> [] \<and> list_all (\<lambda>c. is_ascii_alpha c \<or> c = 46) h"
proof -
  let ?AD = "\<lambda>c. is_ascii_alpha c \<or> c = 46"
  from assms obtain r1 r2 r3 r4 r5 r6 r7 where
      r1: "r1 \<in> set (re_lit (utf16 ''http'') m)"
    and r2: "r2 \<in> set (re_opt (re_lit (utf16 ''s'')) r1)"
    and r3: "r3 \<in> set (re_lit (utf16 ''://'') r2)"
    and r4: "r4 \<in> set (re_opt (re_lit (utf16 ''www.'')) r3)"
    and r5: "r5 \<in> set (re_opt (re_lit (utf16 ''m.'')) r4)"
    and r6: "r6 \<in> set (re_opt (re_lit (utf16 ''vm.'')) r5)"
    and r7: "r7 \<in> set (re_lit (utf16 ''tiktok.com/'') r6)"
    unfolding matches_pattern_def TIKTOK_REGEX_def re_seq_iff by blast
  have alpha_lits: "list_all is_ascii_alpha (utf16 ''http'')"
      "list_all is_ascii_alpha (utf16 ''s'')"
    by (simp_all add: utf16_def is_ascii_alpha_def)
  have ad_lits: "list_all ?AD (utf16 ''www.'')" "list_all ?AD (utf16 ''m.'')"
      "list_all ?AD (utf16 ''vm.'')"
    by (simp_all add: utf16_def is_ascii_alpha_def)
  from re_lit_all [OF r1 alpha_Canonicalize alpha_lits(1)]
  obtain a1 where a1: "m = a1 @ r1" "list_all is_ascii_alpha a1"
      "toLowerCase a1 = toLowerCase (utf16 ''http'')"
    by blast
  from re_opt_lit_all [OF r2 alpha_Canonicalize alpha_lits(2)]
  obtain a2 where a2: "r1 = a2 @ r2" "list_all is_ascii_alpha a2"
      "a2 = [] \<or> toLowerCase a2 = toLowerCase (utf16 ''s'')"
    by blast
  from re_lit_colon_slashes [OF r3] have a3: "r2 = [58, 47, 47] @ r3" .
  from re_opt_lit_all [OF r4, of ?AD, OF alphadot_Canonicalize ad_lits(1)]
  obtain a4 where a4: "r3 = a4 @ r4" "list_all ?AD a4"
    by blast
  from re_opt_lit_all [OF r5, of ?AD, OF alphadot_Canonicalize ad_lits(2)]
  obtain a5 where a5: "r4 = a5 @ r5" "list_all ?AD a5"
    by blast
  from re_opt_lit_all [OF r6, of ?AD, OF alphadot_Canonicalize ad_lits(3)]
  obtain a6 where a6: "r5 = a6 @ r6" "list_all ?AD a6"
    by blast
  from re_lit_tiktok [OF r7]
  obtain b where b: "r6 = b @ 47 # r7" "b \<noteq> []" "list_all ?AD b" by blast
  have m: "m = (a1 @ a2) @ [58, 47, 47] @ (a4 @ a5 @ a6 @ b) @ 47 # r7"
    using a1(1) a2(1) a3 a4(1) a5(1) a6(1) b(1) by simp
  have low: "toLowerCase (a1 @ a2) = toLowerCase a1 @ toLowerCase a2"
    by (simp add: toLowerCase_def)
  have sch: "toLowerCase (a1 @ a2) = utf16 ''http'' \<or> toLowerCase (a1 @ a2) = utf16 ''https''"
    using a1(3) a2(3) unfolding low by (auto simp: toLowerCase_def utf16_def)
  have "list_all is_ascii_alpha (a1 @ a2)" using a1(2) a2(2) by simp
  moreover have "a4 @ a5 @ a6 @ b \<noteq> []" using b(2) by simp
  moreover have "list_all ?AD (a4 @ a5 @ a6 @ b)" using a4(2) a5(2) a6(2) b(3) by simp
  ultimately show ?thesis using m sch by blast
qed

lemma takeWhile_all_then:
  "list_all P xs \<Longrightarrow> \<not> P y \<Longrightarrow> takeWhile P (xs @ y # ys) = xs"
  by (induction xs) simp_all

lemma URL_hostname_shape:
  assumes sch: "toLowerCase sch = utf16 ''http'' \<or> toLowerCase sch = utf16 ''https''"
      and alpha: "list_all is_ascii_alpha sch"
      and h: "h \<noteq> []" "list_all (\<lambda>c. is_ascii_alpha c \<or> c = 46) h"
  shows "URL_hostname (sch @ [58, 47, 47] @ h @ 47 # rest) = Some (toLowerCase h)"
proof -
  from sch have ne: "sch \<noteq> []" by (auto simp: toLowerCase_def utf16_def)
  have "list_all is_scheme_char sch"
    using alpha by (induction sch) (simp_all add: is_scheme_char_def)
  then have buf: "takeWhile is_scheme_char (sch @ 58 # 47 # 47 # h @ 47 # rest) = sch"
    by (rule takeWhile_all_then) (simp add: is_scheme_char_def is_ascii_alpha_def)
  have hd: "is_ascii_alpha (hd sch)" using ne alpha by (cases sch) simp_all
  have scheme: "URL_scheme (sch @ 58 # 47 # 47 # h @ 47 # rest)
      = Some (toLowerCase sch, 47 # 47 # h @ 47 # rest)"
    using ne hd by (simp add: URL_scheme_def buf Let_def)
  obtain c h' where hc: "h = c # h'" using h(1) by (cases h) auto
  with h(2) have c: "is_ascii_alpha c \<or> c = 46" by simp
  then have c': "c \<noteq> 47" "c \<noteq> 92" by (auto simp: is_ascii_alpha_def)
  have slashes: "dropWhile (\<lambda>c. c = 47 \<or> c = 92) (h @ 47 # rest) = h @ 47 # rest"
    using c' by (simp add: hc)
  have "list_all (\<lambda>c. \<not> is_host_end c) h"
    using h(2) by (induction h) (auto simp: is_host_end_def is_ascii_alpha_def)
  then have host: "takeWhile (\<lambda>c. \<not> is_host_end c) (h @ 47 # rest) = h"
    by (rule takeWhile_all_then) (simp add: is_host_end_def)
  show ?thesis
    using sch h by (auto simp: URL_hostname_def scheme slashes host Let_def)
qed

lemma URL_hostname_of_match:
  assumes "matches_pattern m"
  shows "\<exists>hostname. \<forall>x. URL_hostname (m @ x) = Some hostname"
proof -
  from matches_pattern_shape [OF assms]
  obtain sch h rest where s: "m = sch @ [58, 47, 47] @ h @ 47 # rest"
      "toLowerCase sch = utf16 ''http'' \<or> toLowerCase sch = utf16 ''https''"
      "list_all is_ascii_alpha sch" "h \<noteq> []" "list_all (\<lambda>c. is_ascii_alpha c \<or> c = 46) h"
    by blast
  have "URL_hostname (m @ x) = Some (toLowerCase h)" for x
  proof -
    have "m @ x = sch @ [58, 47, 47] @ h @ 47 # (rest @ x)" using s(1) by simp
    then show ?thesis using URL_hostname_shape [OF s(2-5), of "rest @ x"] by simp
  qed
  then show ?thesis by blast
qed

lemma URL_hostname_same_start:
  assumes "matches_pattern m" "matches_pattern m'" "m @ post = m' @ post'"
  shows "URL_hostname m = URL_hostname m'"
proof -
  from URL_hostname_of_match [OF assms(1)] obtain hn where hn: "\<And>x. URL_hostname (m @ x) = Some hn"
    by blast
  from URL_hostname_of_match [OF assms(2)] obtain hn' where hn': "\<And>x. URL_hostname (m' @ x) = Some hn'"
    by blast
  from hn [of post] hn' [of post'] assms(3) have "hn = hn'" by simp
  with hn [of "[]"] hn' [of "[]"] show ?thesis by simp
qed


lemma isTikTokUrl_iff_leftmost:
  "isTikTokUrl s \<longleftrightarrow> (\<exists>pre m. leftmost_match_in s pre m \<and> allowed_host m)"
proof
  assume "isTikTokUrl s"
  then obtain m0 hn where m0: "regex_match s = Some m0" and hn: "URL_hostname m0 = Some hn"
      "toLowerCase hn \<in> set ALLOWED_DOMAINS"
    by (auto simp: isTikTokUrl_def regex_test_def split: option.splits if_splits)
  from regex_match_SomeD [OF m0] obtain pre rest where pr: "s = pre @ rest"
      "match_here rest = Some m0" "\<forall>k<length pre. match_here (drop k s) = None"
    by blast
  from match_here_SomeD [OF pr(2)] obtain post where post: "rest = m0 @ post" "matches_pattern m0"
    by blast
  have mi: "match_in s pre m0" using pr(1) post by (auto simp: match_in_def)
  have "length pre \<le> length pre'" if "match_in s pre' m'" for pre' m'
  proof (rule ccontr)
    assume "\<not> length pre \<le> length pre'"
    then have lt: "length pre' < length pre" by simp
    from that obtain post' where p': "matches_pattern m'" "s = pre' @ m' @ post'"
      by (auto simp: match_in_def)
    from pr(3) lt have "match_here (drop (length pre') s) = None" by blast
    then have "match_here (m' @ post') = None" using p'(2) by simp
    with match_here_of_match [OF p'(1), of post'] show False by simp
  qed
  with mi have "leftmost_match_in s pre m0" by (auto simp: leftmost_match_in_def)
  moreover have "allowed_host m0" using hn by (auto simp: allowed_host_def)
  ultimately show "\<exists>pre m. leftmost_match_in s pre m \<and> allowed_host m" by blast
next
  assume "\<exists>pre m. leftmost_match_in s pre m \<and> allowed_host m"
  then obtain pre m where lm: "leftmost_match_in s pre m" and ah: "allowed_host m"
    by blast
  from lm have mi: "match_in s pre m"
    and left: "\<And>pre' m'. match_in s pre' m' \<Longrightarrow> length pre \<le> length pre'"
    unfolding leftmost_match_in_def by blast+
  from mi obtain post where m: "matches_pattern m" "s = pre @ m @ post"
    unfolding match_in_def by blast
  from ah obtain hn where hn: "URL_hostname m = Some hn" "toLowerCase hn \<in> set ALLOWED_DOMAINS"
    unfolding allowed_host_def by blast
  from match_here_of_match [OF m(1), of post] obtain m0 where m0: "match_here (m @ post) = Some m0"
    by blast
  have none: "match_here (drop k (pre @ (m @ post))) = None" if k: "k < length pre" for k
  proof (cases "match_here (drop k (pre @ (m @ post)))")
    case None
    then show ?thesis .
  next
    case (Some m1)
    have "drop k (pre @ (m @ post)) = drop k s" by (simp only: m(2))
    with Some have "match_here (drop k s) = Some m1" by (simp only:)
    from match_here_SomeD [OF this] obtain post1 where
      p1: "drop k s = m1 @ post1" "matches_pattern m1"
      by blast
    have "s = take k s @ drop k s" by (simp only: append_take_drop_id)
    then have "s = take k s @ m1 @ post1" by (simp only: p1(1))
    with p1(2) have "match_in s (take k s) m1" unfolding match_in_def by blast
    from left [OF this] have "length pre \<le> length (take k s)" .
    then have "length pre \<le> k" by simp
    with k show ?thesis by simp
  qed
  from regex_match_first [OF m0 none] have rm: "regex_match s = Some m0"
    using m(2) by simp
  from match_here_SomeD [OF m0] obtain post0 where p0: "m @ post = m0 @ post0" "matches_pattern m0"
    by blast
  from URL_hostname_same_start [OF m(1) p0(2) p0(1)] hn(1) have "URL_hostname m0 = Some hn" by simp
  with rm hn(2) show "isTikTokUrl s" by (simp add: isTikTokUrl_def regex_test_def)
qed

lemmas re_defs = TIKTOK_REGEX_def re_seq_def re_opt_def re_lit_def re_non_space_plus_def
  utf16_def Canonicalize_def is_space_def

lemmas url_defs = URL_hostname_def URL_scheme_def is_scheme_char_def is_ascii_alpha_def
  is_host_end_def toLowerCase_def ALLOWED_DOMAINS_def

text \<open>
  C1 as stated fails: the text \<open>https://www.m.tiktok.com/a https://tiktok.com/b\<close>
  contains the part \<open>https://tiktok.com/b\<close>, which matches the pattern and whose
  hostname \<open>tiktok.com\<close> is allowed, and \<open>isTikTokUrl\<close> returns false for the text:
  its first match is \<open>https://www.m.tiktok.com/a\<close>.
\<close>

theorem isTikTokUrl_any_match_counterexample:
  "\<not> isTikTokUrl (utf16 ''https://www.m.tiktok.com/a https://tiktok.com/b'')
   \<and> match_in (utf16 ''https://www.m.tiktok.com/a https://tiktok.com/b'')
        (utf16 ''https://www.m.tiktok.com/a '') (utf16 ''https://tiktok.com/b'')
   \<and> allowed_host (utf16 ''https://tiktok.com/b'')"
proof -
  have "\<not> isTikTokUrl (utf16 ''https://www.m.tiktok.com/a https://tiktok.com/b'')"
    by (simp add: isTikTokUrl_def regex_test_def match_here_def re_defs url_defs)
  moreover have "matches_pattern (utf16 ''https://tiktok.com/b'')"
    by (simp add: matches_pattern_def re_defs)
  moreover have "utf16 ''https://www.m.tiktok.com/a https://tiktok.com/b''
      = utf16 ''https://www.m.tiktok.com/a '' @ utf16 ''https://tiktok.com/b'' @ []"
    by (simp add: utf16_def)
  moreover have "allowed_host (utf16 ''https://tiktok.com/b'')"
    by (simp add: allowed_host_def url_defs utf16_def)
  ultimately show ?thesis unfolding match_in_def by blast
qed

text \<open>
  C1, amended. For every text, \<open>isTikTokUrl\<close> returns true if and only if the text has
  a match of the link pattern and the parsed hostname of the leftmost match is one of the
  four allowed hostnames, compared without regard to case. It returns true for
  \<open>check https://www.tiktok.com/@x/video/1\<close>, false for
  \<open>see https://eviltiktok.com/video\<close> and false for \<open>https://tiktok.com.evil.net/a\<close>.
\<close>

theorem isTikTokUrl_leftmost_match:
  "(isTikTokUrl s \<longleftrightarrow> (\<exists>pre m. leftmost_match_in s pre m \<and> allowed_host m))
   \<and> isTikTokUrl (utf16 ''check https://www.tiktok.com/@x/video/1'')
   \<and> \<not> isTikTokUrl (utf16 ''see https://eviltiktok.com/video'')
   \<and> \<not> isTikTokUrl (utf16 ''https://tiktok.com.evil.net/a'')"
proof -
  have "isTikTokUrl (utf16 ''check https://www.tiktok.com/@x/video/1'')"
    by (simp add: isTikTokUrl_def regex_test_def match_here_def re_defs url_defs)
  moreover have "\<not> isTikTokUrl (utf16 ''see https://eviltiktok.com/video'')"
    by (simp add: isTikTokUrl_def regex_test_def match_here_def re_defs url_defs)
  moreover have "\<not> isTikTokUrl (utf16 ''https://tiktok.com.evil.net/a'')"
    by (simp add: isTikTokUrl_def regex_test_def match_here_def re_defs url_defs)
  ultimately show ?thesis using isTikTokUrl_iff_leftmost [of s] by blast
qed


theorem isTikTokUrl_leftmost_match_witness:
  "isTikTokUrl (utf16 ''see https://m.tiktok.com/v/1 now'')
   \<and> (\<exists>pre m. leftmost_match_in (utf16 ''see https://m.tiktok.com/v/1 now'') pre m
          \<and> allowed_host m)"
proof -
  have "isTikTokUrl (utf16 ''see https://m.tiktok.com/v/1 now'')"
    by (simp add: isTikTokUrl_def regex_test_def match_here_def re_defs url_defs)
  with isTikTokUrl_leftmost_match [of "utf16 ''see https://m.tiktok.com/v/1 now''"]
  show ?thesis by blast
qed

text \<open>
  C9. When the leftmost match of the pattern in a text parses to a hostname outside the
  allow-list, \<open>isTikTokUrl\<close> returns false for the text, whatever else the text
  contains; the instance after the theorem has an allowed link later in the text.
\<close>

theorem isTikTokUrl_first_match_only:
  assumes "leftmost_match_in s pre m"
      and "URL_hostname m = Some hostname"
      and "toLowerCase hostname \<notin> set ALLOWED_DOMAINS"
  shows "\<not> isTikTokUrl s"
proof
  assume "isTikTokUrl s"
  then obtain pre' m' where lm': "leftmost_match_in s pre' m'" and ah: "allowed_host m'"
    using isTikTokUrl_iff_leftmost [of s] by blast
  from assms(1) have mi: "match_in s pre m"
    and left: "\<And>p q. match_in s p q \<Longrightarrow> length pre \<le> length p"
    unfolding leftmost_match_in_def by blast+
  from lm' have mi': "match_in s pre' m'"
    and left': "\<And>p q. match_in s p q \<Longrightarrow> length pre' \<le> length p"
    unfolding leftmost_match_in_def by blast+
  from left [OF mi'] left' [OF mi] have len: "length pre = length pre'" by simp
  from mi obtain post where m: "matches_pattern m" "s = pre @ m @ post"
    unfolding match_in_def by blast
  from mi' obtain post' where m': "matches_pattern m'" "s = pre' @ m' @ post'"
    unfolding match_in_def by blast
  from m(2) m'(2) have "pre @ (m @ post) = pre' @ (m' @ post')" by simp
  with len have "m @ post = m' @ post'" by simp
  from URL_hostname_same_start [OF m(1) m'(1) this] assms(2)
  have "URL_hostname m' = Some hostname" by simp
  with ah assms(3) show False by (simp add: allowed_host_def)
qed

theorem isTikTokUrl_first_match_only_witness:
  "leftmost_match_in (utf16 ''http://www.vm.tiktok.com/x https://vm.tiktok.com/ZMabc123/'')
      [] (utf16 ''http://www.vm.tiktok.com/x'')
   \<and> URL_hostname (utf16 ''http://www.vm.tiktok.com/x'') = Some (utf16 ''www.vm.tiktok.com'')
   \<and> toLowerCase (utf16 ''www.vm.tiktok.com'') \<notin> set ALLOWED_DOMAINS
   \<and> match_in (utf16 ''http://www.vm.tiktok.com/x https://vm.tiktok.com/ZMabc123/'')
        (utf16 ''http://www.vm.tiktok.com/x '') (utf16 ''https://vm.tiktok.com/ZMabc123/'')
   \<and> allowed_host (utf16 ''https://vm.tiktok.com/ZMabc123/'')
   \<and> \<not> isTikTokUrl (utf16 ''http://www.vm.tiktok.com/x https://vm.tiktok.com/ZMabc123/'')"
proof -
  let ?s = "utf16 ''http://www.vm.tiktok.com/x https://vm.tiktok.com/ZMabc123/''"
  have m1: "matches_pattern (utf16 ''http://www.vm.tiktok.com/x'')"
    by (simp add: matches_pattern_def re_defs)
  have s1: "?s = [] @ utf16 ''http://www.vm.tiktok.com/x'' @ utf16 '' https://vm.tiktok.com/ZMabc123/''"
    by (simp add: utf16_def)
  from m1 s1 have "match_in ?s [] (utf16 ''http://www.vm.tiktok.com/x'')"
    unfolding match_in_def by blast
  then have lm: "leftmost_match_in ?s [] (utf16 ''http://www.vm.tiktok.com/x'')"
    by (simp add: leftmost_match_in_def)
  have hn: "URL_hostname (utf16 ''http://www.vm.tiktok.com/x'') = Some (utf16 ''www.vm.tiktok.com'')"
    by (simp add: url_defs utf16_def)
  have out: "toLowerCase (utf16 ''www.vm.tiktok.com'') \<notin> set ALLOWED_DOMAINS"
    by (simp add: url_defs utf16_def)
  have m2: "matches_pattern (utf16 ''https://vm.tiktok.com/ZMabc123/'')"
    by (simp add: matches_pattern_def re_defs)
  have s2: "?s = utf16 ''http://www.vm.tiktok.com/x '' @ utf16 ''https://vm.tiktok.com/ZMabc123/'' @ []"
    by (simp add: utf16_def)
  from m2 s2 have later: "match_in ?s (utf16 ''http://www.vm.tiktok.com/x '')
      (utf16 ''https://vm.tiktok.com/ZMabc123/'')"
    unfolding match_in_def by blast
  have ah: "allowed_host (utf16 ''https://vm.tiktok.com/ZMabc123/'')"
    by (simp add: allowed_host_def url_defs utf16_def)
  from isTikTokUrl_first_match_only [OF lm hn out] lm hn out later ah
  show ?thesis by blast
qed

end
